theory Spec2Isabelle
  imports Main "HOL-Library.Word"
begin

section \<open>Bytes, object references, errors and operating-system randomness\<close>

type_synonym byte = "8 word"
type_synonym bytes = "byte list"

text \<open>A Python object reference is the index of the object in the heap of node objects.\<close>

type_synonym addr = nat

text \<open>
  The operating system's randomness (read by \<^verbatim>\<open>secrets.token_bytes\<close> and by the
  signing routine of the ECDSA library) is the stream of bytes that have not been drawn yet.
\<close>

type_synonym entropy = "nat \<Rightarrow> byte"

text \<open>
  Every \<^verbatim>\<open>assert\<close> of the source is a site of its own; the other constructors are the
  exceptions raised by Python itself or by the libraries.  \<open>NoSuchObject\<close> stands for an index
  outside the heap, which a Python reference can never be.
\<close>

datatype assertion =
    Bytes8Range
  | Bytes32Range
  | AesKeyLength
  | EcdsaSeedLength
  | NotATree
  | EdgeCountMismatch
  | SeedLength
  | SiblingIds

datatype error =
    AssertionError assertion
  | TypeError
  | ValueError
  | InvalidTag
  | NoSuchObject

section \<open>encode.py\<close>

text \<open>\<^verbatim>\<open>k.to_bytes(n, byteorder='big')\<close> for \<open>0 \<le> k < 256 ^ n\<close>.\<close>

fun to_bytes_big :: "nat \<Rightarrow> int \<Rightarrow> bytes" where
  "to_bytes_big 0 k = []"
| "to_bytes_big (Suc n) k = to_bytes_big n (k div 256) @ [word_of_int (k mod 256)]"

definition int_to_bytes_32 :: "int \<Rightarrow> error + bytes" where
  "int_to_bytes_32 k =
     (if 0 \<le> k \<and> k < 2 ^ 256 then Inr (to_bytes_big 32 k)
      else Inl (AssertionError Bytes32Range))"

definition int_to_bytes_8 :: "int \<Rightarrow> error + bytes" where
  "int_to_bytes_8 k =
     (if 0 \<le> k \<and> k < 2 ^ 64 then Inr (to_bytes_big 8 k)
      else Inl (AssertionError Bytes8Range))"

text \<open>A verifying key is the curve point \<open>(x, y)\<close> of \<^verbatim>\<open>pk.pubkey.point\<close>.\<close>

type_synonym VerifyingKey = "int \<times> int"

definition verification_key_to_bytes_33 :: "VerifyingKey \<Rightarrow> error + bytes" where
  "verification_key_to_bytes_33 pk =
     (case int_to_bytes_32 (fst pk) of
        Inl e \<Rightarrow> Inl e
      | Inr xb \<Rightarrow> Inr ((if snd pk mod 2 = 0 then [0x02] else [0x03]) @ xb))"

section \<open>constants.py\<close>

definition PRF_ENCRYPTION_PREFIX :: bytes where "PRF_ENCRYPTION_PREFIX = [0x00]"
definition PRF_PRIVATE_KEY_PREFIX :: bytes where "PRF_PRIVATE_KEY_PREFIX = [0x01]"
definition PRF_EDGE_PREFIX :: bytes where "PRF_EDGE_PREFIX = [0x02]"
definition PRF_SECRET_PREFIX :: bytes where "PRF_SECRET_PREFIX = [0x03]"

section \<open>crypto.py\<close>

text \<open>
  The libraries the module calls are not part of the repository; what it uses of them is
  taken as a parameter: the digest function of \<^verbatim>\<open>hashlib.sha3_512\<close>, the two operations of
  \<^verbatim>\<open>AESGCM\<close> (key, nonce, data; decryption gives \<open>None\<close> where the library raises
  \<^verbatim>\<open>InvalidTag\<close>), and the operations of \<^verbatim>\<open>ecdsa\<close> on a fixed curve.  The constructor
  \<^verbatim>\<open>AESGCM(k)\<close> raises \<^verbatim>\<open>ValueError\<close> unless the key has 128, 192 or 256 bits; in
  \<^verbatim>\<open>aes_ae\<close> it comes after the assertion of a 256-bit key and cannot raise.  A signing key is
  plain data, its secret exponent and its public point; \<open>ec_sign\<close> is the method
  \<^verbatim>\<open>sign\<close> with SHA-256 and the canonical DER encoding, which draws its nonce from the
  operating system, and \<open>ec_verify\<close> the method \<^verbatim>\<open>verify\<close> of the verifying key.
  \<open>token_bytes\<close> is \<^verbatim>\<open>secrets.token_bytes\<close>: the next \<open>n\<close> bytes of the stream.
\<close>

record AESGCM =
  encrypt :: "bytes \<Rightarrow> bytes \<Rightarrow> bytes \<Rightarrow> bytes"
  decrypt :: "bytes \<Rightarrow> bytes \<Rightarrow> bytes \<Rightarrow> bytes option"

record SigningKey =
  secret_multiplier :: int
  verifying_point :: VerifyingKey

definition get_verifying_key :: "SigningKey \<Rightarrow> VerifyingKey" where
  "get_verifying_key k = verifying_point k"

record Curve =
  randrange_from_seed__trytryagain :: "bytes \<Rightarrow> int"
  from_secret_exponent :: "int \<Rightarrow> SigningKey"
  ec_sign :: "entropy \<Rightarrow> SigningKey \<Rightarrow> bytes \<Rightarrow> bytes \<times> entropy"
  ec_verify :: "VerifyingKey \<Rightarrow> bytes \<Rightarrow> bytes \<Rightarrow> bool"

definition sha3_512_half :: "(bytes \<Rightarrow> bytes) \<Rightarrow> bytes \<Rightarrow> bytes" where
  "sha3_512_half sha3_512 m = (let d = sha3_512 m in take (length d div 2) d)"

definition sha3_512_half_k :: "(bytes \<Rightarrow> bytes) \<Rightarrow> bytes \<Rightarrow> bytes \<Rightarrow> bytes" where
  "sha3_512_half_k sha3_512 k m = sha3_512_half sha3_512 (k @ m)"

definition token_bytes :: "nat \<Rightarrow> entropy \<Rightarrow> bytes \<times> entropy" where
  "token_bytes n rnd = (map rnd [0..<n], \<lambda>i. rnd (i + n))"

definition aes_ae ::
  "AESGCM \<Rightarrow> entropy \<Rightarrow> bytes \<Rightarrow> bytes \<Rightarrow> error + ((bytes \<times> bytes) \<times> entropy)" where
  "aes_ae lib rnd k m =
     (if length k \<noteq> 256 div 8 then Inl (AssertionError AesKeyLength)
      else (case token_bytes 12 rnd of
              (nonce, rnd') \<Rightarrow> Inr ((nonce, encrypt lib k nonce m), rnd')))"

definition aes_ad :: "AESGCM \<Rightarrow> bytes \<Rightarrow> bytes \<times> bytes \<Rightarrow> error + bytes" where
  "aes_ad lib k c =
     (if length k \<noteq> 128 div 8 \<and> length k \<noteq> 192 div 8 \<and> length k \<noteq> 256 div 8 then Inl ValueError
      else (case decrypt lib k (fst c) (snd c) of
              None \<Rightarrow> Inl InvalidTag
            | Some m \<Rightarrow> Inr m))"

definition ecdsa_keygen :: "bytes option \<Rightarrow> Curve \<Rightarrow> error + SigningKey" where
  "ecdsa_keygen seed curve =
     (case seed of
        None \<Rightarrow> Inl TypeError
      | Some sd \<Rightarrow>
          if length sd \<noteq> 256 div 8 then Inl (AssertionError EcdsaSeedLength)
          else Inr (from_secret_exponent curve (randrange_from_seed__trytryagain curve sd)))"

definition ecdsa_sign :: "Curve \<Rightarrow> entropy \<Rightarrow> SigningKey \<Rightarrow> bytes \<Rightarrow> bytes \<times> entropy" where
  "ecdsa_sign curve rnd k message = ec_sign curve rnd k message"

section \<open>hierarchy.py\<close>

text \<open>
  The three node classes are one record and two extensions of it.  The field \<open>node_id\<close> is
  the attribute \<^verbatim>\<open>id\<close>, and \<open>key\<close>, \<open>label\<close>, \<open>secret\<close>, \<open>encryption_key\<close>,
  \<open>signing_key\<close> are the attributes written with a leading underscore in the source.
  \<open>edges\<close> holds references to the child objects.
\<close>

record Node =
  node_id :: int
  tag :: "string option"
  edges :: "addr list"
  key :: "bytes option"

record DHKANode = Node +
  label :: "bytes option"
  secret :: "bytes option"
  encryption_key :: "bytes option"
  encrypted_edges :: "(bytes \<times> bytes) list"

record ArculaNode = DHKANode +
  certificate :: "(bytes \<times> (bytes \<times> bytes)) option"
  signing_key :: "SigningKey option"

record Hierarchy =
  root :: addr

section \<open>dhka.py\<close>

record DHKA = Hierarchy +
  prf_f :: "bytes \<Rightarrow> bytes \<Rightarrow> bytes"
  enc_f :: "entropy \<Rightarrow> bytes \<Rightarrow> bytes \<Rightarrow> error + ((bytes \<times> bytes) \<times> entropy)"
  dec_f :: "bytes \<Rightarrow> bytes \<times> bytes \<Rightarrow> error + bytes"

text \<open>
  A secret that is still \<^verbatim>\<open>None\<close> makes the concatenation inside the PRF raise
  \<^verbatim>\<open>TypeError\<close>, after the label has been encoded.
\<close>

definition label_secret_encryption_key_from_parent ::
  "'a DHKA_scheme \<Rightarrow> bytes option \<Rightarrow> int \<Rightarrow> error + (bytes \<times> bytes \<times> bytes \<times> bytes)" where
  "label_secret_encryption_key_from_parent self parent_secret identifier =
     (case int_to_bytes_8 identifier of
        Inl e \<Rightarrow> Inl e
      | Inr l \<Rightarrow>
          (case parent_secret of
             None \<Rightarrow> Inl TypeError
           | Some ps \<Rightarrow>
               (let s = prf_f self ps (PRF_SECRET_PREFIX @ l);
                    t = prf_f self s (PRF_ENCRYPTION_PREFIX @ l);
                    k = prf_f self s (PRF_PRIVATE_KEY_PREFIX @ l)
                in Inr (l, s, t, k))))"

definition edge_encryption_key ::
  "'a DHKA_scheme \<Rightarrow> bytes option \<Rightarrow> bytes option \<Rightarrow> error + bytes" where
  "edge_encryption_key self parent_encryption_key child_label =
     (case child_label of
        None \<Rightarrow> Inl TypeError
      | Some cl \<Rightarrow>
          (case parent_encryption_key of
             None \<Rightarrow> Inl TypeError
           | Some pk \<Rightarrow> Inr (prf_f self pk (PRF_EDGE_PREFIX @ cl))))"

definition encrypt_edge ::
  "'a DHKA_scheme \<Rightarrow> entropy \<Rightarrow> bytes \<Rightarrow> bytes \<Rightarrow> error + ((bytes \<times> bytes) \<times> entropy)" where
  "encrypt_edge self rnd edge_key message = enc_f self rnd edge_key message"

text \<open>\<^verbatim>\<open>a + b\<close> on two attributes that hold bytes or \<^verbatim>\<open>None\<close>.\<close>

definition bytes_add :: "bytes option \<Rightarrow> bytes option \<Rightarrow> error + bytes" where
  "bytes_add a b =
     (case a of None \<Rightarrow> Inl TypeError
      | Some x \<Rightarrow> (case b of None \<Rightarrow> Inl TypeError | Some y \<Rightarrow> Inr (x @ y)))"

type_synonym 'n dstore = "'n DHKANode_scheme list"

text \<open>
  The body of the \<^verbatim>\<open>for\<close> loop of \<^verbatim>\<open>keygen\<close>, for the child \<open>v\<close> of the dequeued
  node \<open>u\<close>.  The objects are mutated in place, so an exception leaves the heap as it is at
  that moment: a failure carries the heap it leaves behind.
\<close>

definition keygen_edge ::
  "'a DHKA_scheme \<Rightarrow> addr \<Rightarrow> addr set \<Rightarrow> addr \<Rightarrow> 'n dstore \<times> addr list \<times> entropy \<Rightarrow>
     (error \<times> 'n dstore) + ('n dstore \<times> addr list \<times> entropy)" where
  "keygen_edge self u visited v = (\<lambda>(st, q, rnd).
     if v \<in> visited then Inl (AssertionError NotATree, st)
     else if \<not> v < length st then Inl (NoSuchObject, st)
     else
       (case label_secret_encryption_key_from_parent self (secret (st ! u)) (node_id (st ! v)) of
          Inl e \<Rightarrow> Inl (e, st)
        | Inr (l, s, t, k) \<Rightarrow>
            (let st1 = st[v := (st ! v)\<lparr>key := Some k, label := Some l, secret := Some s,
                                       encryption_key := Some t\<rparr>]
             in (case edge_encryption_key self (encryption_key (st1 ! u)) (label (st1 ! v)) of
                   Inl e \<Rightarrow> Inl (e, st1)
                 | Inr ek \<Rightarrow>
                     (case bytes_add (encryption_key (st1 ! v)) (key (st1 ! v)) of
                        Inl e \<Rightarrow> Inl (e, st1)
                      | Inr m \<Rightarrow>
                          (case encrypt_edge self rnd ek m of
                             Inl e \<Rightarrow> Inl (e, st1)
                           | Inr (c, rnd') \<Rightarrow>
                               Inr (st1[u := (st1 ! u)\<lparr>encrypted_edges :=
                                                       encrypted_edges (st1 ! u) @ [c]\<rparr>],
                                    q @ [v], rnd')))))))"

text \<open>The \<^verbatim>\<open>for\<close> loop itself: the children in their declared order.\<close>

fun keygen_edges ::
  "'a DHKA_scheme \<Rightarrow> addr \<Rightarrow> addr set \<Rightarrow> addr list \<Rightarrow> 'n dstore \<times> addr list \<times> entropy \<Rightarrow>
     (error \<times> 'n dstore) + ('n dstore \<times> addr list \<times> entropy)" where
  "keygen_edges self u visited [] s = Inr s"
| "keygen_edges self u visited (v # vs) s =
     (case keygen_edge self u visited v s of
        Inl e \<Rightarrow> Inl e
      | Inr s' \<Rightarrow> keygen_edges self u visited vs s')"

text \<open>
  The \<^verbatim>\<open>while\<close> loop of \<^verbatim>\<open>keygen\<close>: the queue \<open>q\<close>, the set \<open>visited\<close> (Python
  compares node objects by identity), and the assertion after the children of \<open>u\<close>.
\<close>

function keygen_loop ::
  "'a DHKA_scheme \<Rightarrow> 'n dstore \<times> addr list \<times> addr set \<times> entropy \<Rightarrow>
     (error \<times> 'n dstore) + ('n dstore \<times> entropy)" where
  "keygen_loop self (st, [], visited, rnd) = Inr (st, rnd)"
| "keygen_loop self (st, u # q, visited, rnd) =
     (if \<not> u < length st then Inl (NoSuchObject, st)
      else
        (case keygen_edges self u (insert u visited) (edges (st ! u)) (st, q, rnd) of
           Inl e \<Rightarrow> Inl e
         | Inr (st', q', rnd') \<Rightarrow>
             if length (encrypted_edges (st' ! u)) = length (edges (st' ! u))
             then keygen_loop self (st', q', insert u visited, rnd')
             else Inl (AssertionError EdgeCountMismatch, st')))"
  by pat_completeness auto

definition DHKA_keygen ::
  "'a DHKA_scheme \<Rightarrow> bytes \<Rightarrow> 'n dstore \<times> entropy \<Rightarrow>
     (error \<times> 'n dstore) + ('n dstore \<times> entropy)" where
  "DHKA_keygen self seed = (\<lambda>(st, rnd).
     if \<not> root self < length st then Inl (NoSuchObject, st)
     else
       (case label_secret_encryption_key_from_parent self (Some seed)
               (node_id (st ! root self)) of
          Inl e \<Rightarrow> Inl (e, st)
        | Inr (l, s, t, k) \<Rightarrow>
            keygen_loop self
              (st[root self := (st ! root self)\<lparr>key := Some k, label := Some l,
                                                 secret := Some s, encryption_key := Some t\<rparr>],
               [root self], {}, rnd)))"

section \<open>arcula.py\<close>

record Arcula = DHKA +
  hash_f :: "bytes \<Rightarrow> bytes"
  curve :: Curve
  cold_storage_public_key :: "VerifyingKey option"

type_synonym 'n astore = "'n ArculaNode_scheme list"

definition cold_storage_keys :: "'a Arcula_scheme \<Rightarrow> bytes \<Rightarrow> error + SigningKey" where
  "cold_storage_keys self seed = ecdsa_keygen (Some seed) (curve self)"

text \<open>
  The signing method belongs to the key object in the source; here the key is plain data
  and the curve whose operations sign with it is passed along.
\<close>

definition create_certificate ::
  "Curve \<Rightarrow> entropy \<Rightarrow> SigningKey \<Rightarrow> VerifyingKey \<Rightarrow> int \<Rightarrow>
     error + ((bytes \<times> (bytes \<times> bytes)) \<times> entropy)" where
  "create_certificate crv rnd cold_storage_key public_signing_key identifier =
     (case verification_key_to_bytes_33 public_signing_key of
        Inl e \<Rightarrow> Inl e
      | Inr pk \<Rightarrow>
          (case int_to_bytes_8 identifier of
             Inl e \<Rightarrow> Inl e
           | Inr ident \<Rightarrow>
               (case ecdsa_sign crv rnd cold_storage_key (pk @ ident) of
                  (sg, rnd') \<Rightarrow> Inr ((sg, (pk, ident)), rnd'))))"

text \<open>
  The body of the second \<^verbatim>\<open>while\<close> loop up to its assertion, for the dequeued node \<open>u\<close>:
  the signing key, the certificate, then the check that the ids of the children are
  pairwise distinct.
\<close>

definition Arcula_keygen_node ::
  "'a Arcula_scheme \<Rightarrow> SigningKey \<Rightarrow> addr \<Rightarrow> 'n astore \<times> entropy \<Rightarrow>
     (error \<times> 'n astore) + ('n astore \<times> entropy)" where
  "Arcula_keygen_node self cold_storage_key u = (\<lambda>(st, rnd).
     case ecdsa_keygen (key (st ! u)) (curve self) of
       Inl e \<Rightarrow> Inl (e, st)
     | Inr sk \<Rightarrow>
         (let st1 = st[u := (st ! u)\<lparr>signing_key := Some sk\<rparr>]
          in (case signing_key (st1 ! u) of
                None \<Rightarrow> Inl (TypeError, st1)
              | Some sk' \<Rightarrow>
                  (case create_certificate (curve self) rnd cold_storage_key
                          (get_verifying_key sk') (node_id (st1 ! u)) of
                     Inl e \<Rightarrow> Inl (e, st1)
                   | Inr (cert, rnd') \<Rightarrow>
                       (let st2 = st1[u := (st1 ! u)\<lparr>certificate := Some cert\<rparr>]
                        in if \<exists>e \<in> set (edges (st2 ! u)). \<not> e < length st2
                           then Inl (NoSuchObject, st2)
                           else if card (set (map (\<lambda>e. node_id (st2 ! e)) (edges (st2 ! u))))
                                     = length (edges (st2 ! u))
                           then Inr (st2, rnd')
                           else Inl (AssertionError SiblingIds, st2))))))"

function Arcula_keygen_loop ::
  "'a Arcula_scheme \<Rightarrow> SigningKey \<Rightarrow> 'n astore \<times> addr list \<times> addr set \<times> entropy \<Rightarrow>
     (error \<times> 'n astore) + ('n astore \<times> entropy)" where
  "Arcula_keygen_loop self cold_storage_key (st, [], visited, rnd) = Inr (st, rnd)"
| "Arcula_keygen_loop self cold_storage_key (st, u # q, visited, rnd) =
     (if \<not> u < length st then Inl (NoSuchObject, st)
      else
        (case Arcula_keygen_node self cold_storage_key u (st, rnd) of
           Inl e \<Rightarrow> Inl e
         | Inr (st', rnd') \<Rightarrow>
             Arcula_keygen_loop self cold_storage_key
               (st', q @ filter (\<lambda>v. v \<notin> insert u visited) (edges (st' ! u)),
                insert u visited, rnd')))"
  by pat_completeness auto

text \<open>
  \<^verbatim>\<open>Arcula.keygen\<close> also stores the cold storage public key in the wallet object, so the
  wallet is returned with the heap.
\<close>

definition Arcula_keygen ::
  "'a Arcula_scheme \<Rightarrow> bytes \<Rightarrow> 'n astore \<times> entropy \<Rightarrow>
     (error \<times> 'n astore) + ('a Arcula_scheme \<times> 'n astore \<times> entropy)" where
  "Arcula_keygen self seed = (\<lambda>(st, rnd).
     if length seed \<noteq> 512 div 8 then Inl (AssertionError SeedLength, st)
     else
       (case DHKA_keygen self (take (256 div 8) seed) (st, rnd) of
          Inl e \<Rightarrow> Inl e
        | Inr (st1, rnd1) \<Rightarrow>
            (case cold_storage_keys self (drop (256 div 8) seed) of
               Inl e \<Rightarrow> Inl (e, st1)
             | Inr cold_storage_key \<Rightarrow>
                 (let self' = self\<lparr>cold_storage_public_key :=
                                     Some (get_verifying_key cold_storage_key)\<rparr>
                  in (case Arcula_keygen_loop self' cold_storage_key
                            (st1, [root self'], {}, rnd1) of
                        Inl e \<Rightarrow> Inl e
                      | Inr (st2, rnd2) \<Rightarrow> Inr (self', st2, rnd2))))))"

section \<open>The hierarchy as a graph, and the derivation rules of the specification\<close>

text \<open>
  The edge relation of the heap, the nodes reachable from a root, and what it means for the
  reachable structure to be a tree: no reference leaves the heap, the root is nobody's
  child, and no node is a child twice, neither of one parent nor of two.
\<close>

definition edge_rel :: "'n Node_scheme list \<Rightarrow> (addr \<times> addr) set" where
  "edge_rel st = {(u, v). u < length st \<and> v \<in> set (edges (st ! u))}"

definition reachable :: "'n Node_scheme list \<Rightarrow> addr \<Rightarrow> addr set" where
  "reachable st r = {v. (r, v) \<in> (edge_rel st)\<^sup>*}"

definition is_tree :: "'n Node_scheme list \<Rightarrow> addr \<Rightarrow> bool" where
  "is_tree st r \<longleftrightarrow>
     r < length st \<and>
     (\<forall>u \<in> reachable st r.
        distinct (edges (st ! u)) \<and> r \<notin> set (edges (st ! u)) \<and>
        (\<forall>v \<in> set (edges (st ! u)). v < length st)) \<and>
     (\<forall>u \<in> reachable st r. \<forall>p \<in> reachable st r.
        u \<noteq> p \<longrightarrow> set (edges (st ! u)) \<inter> set (edges (st ! p)) = {})"

text \<open>
  The derivation rules as the specification writes them, with \<open>be64\<close> the 8-byte big-endian
  encoding of an id and the four domain-separation tags.
\<close>

definition be64 :: "int \<Rightarrow> bytes" where
  "be64 i = to_bytes_big 8 i"

definition spec_secret :: "(bytes \<Rightarrow> bytes \<Rightarrow> bytes) \<Rightarrow> bytes \<Rightarrow> int \<Rightarrow> bytes" where
  "spec_secret PRF parent_secret i = PRF parent_secret (0x03 # be64 i)"

definition spec_encryption_key :: "(bytes \<Rightarrow> bytes \<Rightarrow> bytes) \<Rightarrow> bytes \<Rightarrow> int \<Rightarrow> bytes" where
  "spec_encryption_key PRF s i = PRF s (0x00 # be64 i)"

definition spec_private_key :: "(bytes \<Rightarrow> bytes \<Rightarrow> bytes) \<Rightarrow> bytes \<Rightarrow> int \<Rightarrow> bytes" where
  "spec_private_key PRF s i = PRF s (0x01 # be64 i)"

definition spec_edge_key :: "(bytes \<Rightarrow> bytes \<Rightarrow> bytes) \<Rightarrow> bytes \<Rightarrow> int \<Rightarrow> bytes" where
  "spec_edge_key PRF parent_encryption_key i = PRF parent_encryption_key (0x02 # be64 i)"

text \<open>
  A node carries the tuple the rules assign to it from the secret \<open>ps\<close> of its parent (the
  seed, for the root).
\<close>

definition derived :: "'a DHKA_scheme \<Rightarrow> bytes \<Rightarrow> 'n DHKANode_scheme \<Rightarrow> bool" where
  "derived self ps n \<longleftrightarrow>
     label n = Some (be64 (node_id n)) \<and>
     secret n = Some (spec_secret (prf_f self) ps (node_id n)) \<and>
     encryption_key n =
       Some (spec_encryption_key (prf_f self) (spec_secret (prf_f self) ps (node_id n)) (node_id n)) \<and>
     key n =
       Some (spec_private_key (prf_f self) (spec_secret (prf_f self) ps (node_id n)) (node_id n))"

text \<open>
  \<open>c\<close> is an edge ciphertext for the child \<open>v\<close> of the parent \<open>p\<close>: some run of the
  encryption function, under the edge key, of the child's encryption key followed by its
  private key.
\<close>

definition edge_cipher ::
  "'a DHKA_scheme \<Rightarrow> 'n DHKANode_scheme \<Rightarrow> 'n DHKANode_scheme \<Rightarrow> bytes \<times> bytes \<Rightarrow> bool" where
  "edge_cipher self p v c \<longleftrightarrow>
     (\<exists>pek t k rnd rnd'.
        encryption_key p = Some pek \<and> encryption_key v = Some t \<and> key v = Some k \<and>
        enc_f self rnd (spec_edge_key (prf_f self) pek (node_id v)) (t @ k) = Inr (c, rnd'))"

section \<open>Preconditions and library contracts used in the statements\<close>

text \<open>
  A condition on the whole heap that can be evaluated and suffices for the reachable
  structure to be a tree: the root and all edge targets, listed parent by parent, are
  pairwise distinct and inside the heap.
\<close>

definition tree_check :: "'n Node_scheme list \<Rightarrow> addr \<Rightarrow> bool" where
  "tree_check st r \<longleftrightarrow>
     r < length st \<and> distinct (r # concat (map edges st)) \<and>
     (\<forall>v \<in> set (concat (map edges st)). v < length st)"

text \<open>
  What a hierarchy built by the node constructors satisfies before derivation: every id is
  in the 64-bit range and no node has encrypted edges yet; and what the default primitives
  satisfy: the encryption function accepts every output of the PRF as a key.
\<close>

definition ids_in_range :: "'n Node_scheme list \<Rightarrow> addr \<Rightarrow> bool" where
  "ids_in_range st r \<longleftrightarrow> (\<forall>u \<in> reachable st r. 0 \<le> node_id (st ! u) \<and> node_id (st ! u) < 2 ^ 64)"

definition no_encrypted_edges :: "'n dstore \<Rightarrow> addr \<Rightarrow> bool" where
  "no_encrypted_edges st r \<longleftrightarrow> (\<forall>u \<in> reachable st r. encrypted_edges (st ! u) = [])"

definition enc_accepts_prf :: "'a DHKA_scheme \<Rightarrow> bool" where
  "enc_accepts_prf self \<longleftrightarrow>
     (\<forall>rnd k x m. \<exists>c rnd'. enc_f self rnd (prf_f self k x) m = Inr (c, rnd'))"

text \<open>
  The compressed form of a public key as the specification describes it: one parity byte,
  then the x-coordinate in 32 big-endian bytes.
\<close>

definition compressed :: "VerifyingKey \<Rightarrow> bytes" where
  "compressed pk = (if snd pk mod 2 = 0 then 0x02 else 0x03) # to_bytes_big 32 (fst pk)"

text \<open>The contract of the ECDSA library: a signature verifies under the signer's public key.\<close>

definition signatures_verify :: "Curve \<Rightarrow> bool" where
  "signatures_verify crv \<longleftrightarrow>
     (\<forall>rnd e m. ec_verify crv (get_verifying_key (from_secret_exponent crv e))
        (fst (ec_sign crv rnd (from_secret_exponent crv e) m)) m)"

text \<open>A parent with two children of equal id.\<close>

definition twin_parent :: "'n Node_scheme list \<Rightarrow> addr \<Rightarrow> bool" where
  "twin_parent st p \<longleftrightarrow> \<not> distinct (map (\<lambda>e. node_id (st ! e)) (edges (st ! p)))"

text \<open>
  What the curve contributes to a certificate pass free of other errors: the x-coordinates
  of its public keys fit 32 bytes.
\<close>

definition curve_in_range :: "Curve \<Rightarrow> bool" where
  "curve_in_range crv \<longleftrightarrow>
     (\<forall>e. 0 \<le> fst (get_verifying_key (from_secret_exponent crv e)) \<and>
          fst (get_verifying_key (from_secret_exponent crv e)) < 2 ^ 256)"

section \<open>Frames and invariants used in the proofs\<close>

text \<open>What one run of the inner loop leaves unchanged in the heap.\<close>

definition dframe :: "addr \<Rightarrow> nat \<Rightarrow> 'n dstore \<Rightarrow> 'n dstore \<Rightarrow> bool" where
  "dframe u n st st' \<longleftrightarrow>
     length st' = length st \<and>
     (\<forall>a<length st. edges (st' ! a) = edges (st ! a) \<and> node_id (st' ! a) = node_id (st ! a) \<and>
        (a \<noteq> u \<longrightarrow> encrypted_edges (st' ! a) = encrypted_edges (st ! a))) \<and>
     (u < length st \<longrightarrow>
        length (encrypted_edges (st' ! u)) = length (encrypted_edges (st ! u)) + n)"

text \<open>
  The measure of the two traversals.  A dequeued node that was not visited yet shrinks the
  set of unvisited objects; one that was visited already adds only unvisited nodes to the
  queue, so the queue holds one visited entry less.
\<close>

definition unvisited :: "'n list \<Rightarrow> addr set \<Rightarrow> addr set" where
  "unvisited st visited = {a. a < length st \<and> a \<notin> visited}"

definition traversal_measure :: "'n list \<times> addr list \<times> addr set \<Rightarrow> nat \<times> nat" where
  "traversal_measure = (\<lambda>(st, q, visited).
     (card (unvisited st visited), length (filter (\<lambda>x. x \<in> visited) q)))"

text \<open>Two heaps with the same nodes, ids and edges.\<close>

definition same_shape :: "'n Node_scheme list \<Rightarrow> 'm Node_scheme list \<Rightarrow> bool" where
  "same_shape st st' \<longleftrightarrow>
     length st' = length st \<and>
     (\<forall>a<length st. edges (st' ! a) = edges (st ! a) \<and> node_id (st' ! a) = node_id (st ! a))"

text \<open>
  The invariant of a breadth-first traversal of a tree: the queue has no duplicates and is
  disjoint from the visited set, every node met so far except the root was met as the child
  of a visited node, and all children of visited nodes have been met.
\<close>

definition bfs_inv :: "'n Node_scheme list \<Rightarrow> addr \<Rightarrow> addr list \<Rightarrow> addr set \<Rightarrow> bool" where
  "bfs_inv st r q visited \<longleftrightarrow>
     distinct q \<and> set q \<inter> visited = {} \<and> set q \<union> visited \<subseteq> reachable st r \<and>
     (\<forall>x \<in> set q \<union> visited. x = r \<or> (\<exists>p \<in> visited. x \<in> set (edges (st ! p)))) \<and>
     (\<forall>p \<in> visited. set (edges (st ! p)) \<subseteq> set q \<union> visited) \<and>
     (r \<in> set q \<union> visited)"

text \<open>
  The four derived fields of a node; and what the loop over the children \<open>vs\<close> of \<open>u\<close> does
  to the heap: it appends one edge ciphertext per child to \<open>u\<close>, leaves the derived fields of
  \<open>u\<close> alone, derives every child from the secret of \<open>u\<close> and touches no other node.
\<close>

definition keys_of :: "'n DHKANode_scheme \<Rightarrow> bytes option \<times> bytes option \<times> bytes option \<times> bytes option" where
  "keys_of n = (label n, secret n, encryption_key n, key n)"

definition edges_result ::
  "'a DHKA_scheme \<Rightarrow> addr \<Rightarrow> addr list \<Rightarrow> 'n dstore \<Rightarrow> 'n dstore \<Rightarrow> bool" where
  "edges_result self u vs st st' \<longleftrightarrow>
     u \<notin> set vs \<and> keys_of (st' ! u) = keys_of (st ! u) \<and>
     (\<exists>cs. length cs = length vs \<and>
        encrypted_edges (st' ! u) = encrypted_edges (st ! u) @ cs \<and>
        (\<forall>i<length vs. edge_cipher self (st' ! u) (st' ! (vs ! i)) (cs ! i))) \<and>
     (\<forall>v \<in> set vs. \<exists>ps. secret (st' ! u) = Some ps \<and> derived self ps (st' ! v)) \<and>
     (\<forall>a<length st. a \<noteq> u \<longrightarrow> a \<notin> set vs \<longrightarrow> st' ! a = st ! a)"

text \<open>
  The postcondition at a parent \<open>p\<close>, and the invariant of the derivation: the root is derived
  from the seed and the postcondition holds at every visited node.
\<close>

definition node_ok :: "'a DHKA_scheme \<Rightarrow> 'n dstore \<Rightarrow> addr \<Rightarrow> bool" where
  "node_ok self st p \<longleftrightarrow>
     length (encrypted_edges (st ! p)) = length (edges (st ! p)) \<and>
     (\<forall>i<length (edges (st ! p)).
        (\<exists>ps. secret (st ! p) = Some ps \<and> derived self ps (st ! (edges (st ! p) ! i))) \<and>
        edge_cipher self (st ! p) (st ! (edges (st ! p) ! i)) (encrypted_edges (st ! p) ! i))"

definition keys_inv :: "'a DHKA_scheme \<Rightarrow> bytes \<Rightarrow> 'n dstore \<Rightarrow> addr \<Rightarrow> addr set \<Rightarrow> bool" where
  "keys_inv self seed st r visited \<longleftrightarrow>
     derived self seed (st ! r) \<and> (\<forall>p \<in> visited. node_ok self st p)"

text \<open>
  The nodes of \<open>V\<close> hold as many encrypted edges as edges, and their children are in \<open>V\<close>
  or in \<open>Q\<close>.  This part needs no tree.
\<close>

definition filled :: "'n dstore \<Rightarrow> addr set \<Rightarrow> addr set \<Rightarrow> bool" where
  "filled st V Q \<longleftrightarrow>
     (\<forall>p \<in> V. p < length st \<and>
        length (encrypted_edges (st ! p)) = length (edges (st ! p)) \<and>
        set (edges (st ! p)) \<subseteq> V \<union> Q)"

text \<open>
  What keeps the derivation going: no unvisited node has encrypted edges, and every queued
  node has its secret and encryption key.
\<close>

definition progress_inv :: "'n dstore \<Rightarrow> addr \<Rightarrow> addr list \<Rightarrow> addr set \<Rightarrow> bool" where
  "progress_inv st r q visited \<longleftrightarrow>
     ids_in_range st r \<and>
     (\<forall>x \<in> reachable st r. x \<notin> visited \<longrightarrow> encrypted_edges (st ! x) = []) \<and>
     (\<forall>x \<in> set q. secret (st ! x) \<noteq> None \<and> encryption_key (st ! x) \<noteq> None)"

text \<open>
  The certificate pass writes the signing key and the certificate of the node it dequeues,
  and nothing else.
\<close>

definition only_at :: "addr \<Rightarrow> 'n astore \<Rightarrow> 'n astore \<Rightarrow> bool" where
  "only_at u st st' \<longleftrightarrow>
     length st' = length st \<and>
     (\<forall>a<length st. a \<noteq> u \<longrightarrow> st' ! a = st ! a) \<and>
     (\<forall>a<length st. DHKANode.truncate (st' ! a) = DHKANode.truncate (st ! a))"

text \<open>Two heaps that agree on everything the derivation engine owns.\<close>

definition same_dhka :: "'n astore \<Rightarrow> 'n astore \<Rightarrow> bool" where
  "same_dhka st st' \<longleftrightarrow>
     length st' = length st \<and>
     (\<forall>a<length st. DHKANode.truncate (st' ! a) = DHKANode.truncate (st ! a))"

text \<open>
  The node holds the signing key generated from its private key, and a certificate whose
  message is the compressed public key and the encoded id, signed by the cold storage key.
\<close>

definition certified :: "Curve \<Rightarrow> SigningKey \<Rightarrow> 'n ArculaNode_scheme \<Rightarrow> bool" where
  "certified crv cold n \<longleftrightarrow>
     (\<exists>sk sg rnd rnd'.
        ecdsa_keygen (key n) crv = Inr sk \<and> signing_key n = Some sk \<and>
        certificate n = Some (sg, (compressed (get_verifying_key sk), be64 (node_id n))) \<and>
        ecdsa_sign crv rnd cold (compressed (get_verifying_key sk) @ be64 (node_id n)) = (sg, rnd'))"

text \<open>
  The invariant of the certificate pass: every node of \<open>V\<close> is certified, the ids of its
  children are pairwise distinct, and its children are in \<open>V\<close> or in \<open>Q\<close>.
\<close>

definition cert_inv :: "Curve \<Rightarrow> SigningKey \<Rightarrow> 'n astore \<Rightarrow> addr set \<Rightarrow> addr set \<Rightarrow> bool" where
  "cert_inv crv cold st V Q \<longleftrightarrow>
     (\<forall>p \<in> V. p < length st \<and> certified crv cold (st ! p) \<and>
        distinct (map (\<lambda>e. node_id (st ! e)) (edges (st ! p))) \<and>
        (\<forall>e \<in> set (edges (st ! p)). e < length st) \<and>
        set (edges (st ! p)) \<subseteq> V \<union> Q)"

text \<open>The derivation engine leaves the fields of the certificate layer alone.\<close>

definition same_more :: "'n dstore \<Rightarrow> 'n dstore \<Rightarrow> bool" where
  "same_more st st' \<longleftrightarrow>
     length st' = length st \<and> (\<forall>a<length st. DHKANode.more (st' ! a) = DHKANode.more (st ! a))"

text \<open>
  What the heap contributes after the derivation: every reachable node has a private key
  of 32 bytes and an id in range.
\<close>

definition certifiable :: "'n astore \<Rightarrow> addr \<Rightarrow> bool" where
  "certifiable st r \<longleftrightarrow>
     (\<forall>x \<in> reachable st r. (\<exists>k. key (st ! x) = Some k \<and> length k = 32) \<and>
        0 \<le> node_id (st ! x) \<and> node_id (st ! x) < 2 ^ 64)"

text \<open>
  Erasing the contents of the encrypted edges (their number stays), and a derivation engine
  whose encryption function draws no randomness and returns an empty entry.  A run of the
  real engine that returns is matched step by step by a run of that engine on the erased
  heap; so whatever two real runs from the same inputs differ in is erased.
\<close>

definition erase_node :: "'n DHKANode_scheme \<Rightarrow> 'n DHKANode_scheme" where
  "erase_node n = n\<lparr>encrypted_edges := map (\<lambda>c. ([], [])) (encrypted_edges n)\<rparr>"

definition erase :: "'n dstore \<Rightarrow> 'n dstore" where
  "erase st = map erase_node st"

definition without_randomness :: "'a DHKA_scheme \<Rightarrow> 'a DHKA_scheme" where
  "without_randomness self = self\<lparr>enc_f := (\<lambda>rnd k m. Inr (([], []), rnd))\<rparr>"

text \<open>The same for the certificate pass: the signature bytes are erased as well.\<close>

definition erase_all_node :: "'n ArculaNode_scheme \<Rightarrow> 'n ArculaNode_scheme" where
  "erase_all_node n = (erase_node n)\<lparr>certificate := map_option (\<lambda>c. ([], snd c)) (certificate n)\<rparr>"

definition erase_all :: "'n astore \<Rightarrow> 'n astore" where
  "erase_all st = map erase_all_node st"

definition without_signing_randomness :: "'a Arcula_scheme \<Rightarrow> 'a Arcula_scheme" where
  "without_signing_randomness w = w\<lparr>curve := (curve w)\<lparr>ec_sign := (\<lambda>rnd k m. ([], rnd))\<rparr>\<rparr>"

section \<open>Small instances for evaluation\<close>

text \<open>
  Stand-ins for the library primitives, only to run the code on a concrete hierarchy: a
  PRF with 32 bytes of output, a cipher that decrypts what it encrypts and rejects a
  ciphertext made under another key, and the hierarchy of the repository's test
  \<^verbatim>\<open>test_private_derivation_hardcoded\<close> (a root with ids 0 and 1 below it, and one
  grandchild).
\<close>

definition toy_prf :: "bytes \<Rightarrow> bytes \<Rightarrow> bytes" where
  "toy_prf k m = take 32 (m @ k @ replicate 32 0)"

definition toy_gcm :: AESGCM where
  "toy_gcm = \<lparr>encrypt = (\<lambda>k n m. take 2 k @ m),
              decrypt = (\<lambda>k n c. if take 2 c = take 2 k then Some (drop 2 c) else None)\<rparr>"

definition toy_dhka :: "addr \<Rightarrow> DHKA" where
  "toy_dhka r = \<lparr>root = r, prf_f = toy_prf, enc_f = aes_ae toy_gcm, dec_f = aes_ad toy_gcm\<rparr>"

definition bare :: "int \<Rightarrow> addr list \<Rightarrow> DHKANode" where
  "bare i es = \<lparr>node_id = i, tag = None, edges = es, key = None, label = None, secret = None,
      encryption_key = None, encrypted_edges = []\<rparr>"

definition hardcoded :: "DHKANode list" where
  "hardcoded = [bare 0 [1, 2], bare 0 [], bare 1 [3], bare 0 []]"

definition zeros :: entropy where "zeros = (\<lambda>i. 0)"

definition toy_seed :: bytes where "toy_seed = [7, 7, 7]"

text \<open>A parent with two children of equal id.\<close>

definition twins :: "DHKANode list" where
  "twins = [bare 0 [1, 2], bare 5 [], bare 5 []]"

definition seed64 :: bytes where "seed64 = replicate 64 7"

text \<open>The same parent and children, with an edge from the first child back to the root.\<close>

definition twins_back :: "DHKANode list" where
  "twins_back = [bare 0 [1, 2], bare 5 [0], bare 5 []]"

text \<open>
  The root has the children 1 and 2, and both have the one leaf 3 as their child.
\<close>

definition diamond :: "DHKANode list" where
  "diamond = [bare 0 [1, 2], bare 1 [3], bare 2 [3], bare 3 []]"

text \<open>
  A stand-in for the curve, only to run the code: the signature repeats the signer's public
  x-coordinate and the message after one random byte.
\<close>

definition toy_curve :: Curve where
  "toy_curve = \<lparr>
     randrange_from_seed__trytryagain = (\<lambda>sd. 1 + (\<Sum>b\<leftarrow>sd. uint b)),
     from_secret_exponent = (\<lambda>e. \<lparr>secret_multiplier = e, verifying_point = (e mod 2 ^ 256, e mod 7)\<rparr>),
     ec_sign = (\<lambda>rnd k m. (rnd 0 # to_bytes_big 32 (fst (verifying_point k)) @ m, \<lambda>i. rnd (Suc i))),
     ec_verify = (\<lambda>pk sg m. drop 1 sg = to_bytes_big 32 (fst pk) @ m)\<rparr>"

definition toy_wallet :: "addr \<Rightarrow> Arcula" where
  "toy_wallet r = \<lparr>root = r, prf_f = toy_prf, enc_f = aes_ae toy_gcm, dec_f = aes_ad toy_gcm,
     hash_f = (\<lambda>m. take 32 (m @ replicate 32 0)), curve = toy_curve,
     cold_storage_public_key = None\<rparr>"

definition arcula_node :: "DHKANode \<Rightarrow> ArculaNode" where
  "arcula_node n = DHKANode.extend n \<lparr>certificate = None, signing_key = None\<rparr>"

text \<open>
  The same hierarchies with nodes of the certificate layer, and a single root whose id is
  out of range.
\<close>

definition atwins :: "ArculaNode list" where
  "atwins = map arcula_node twins"

definition ahardcoded :: "ArculaNode list" where
  "ahardcoded = map arcula_node hardcoded"

definition abad :: "ArculaNode list" where
  "abad = [arcula_node (bare (- 1) [])]"

text \<open>A second stream of operating-system randomness.\<close>

definition ones :: entropy where "ones = (\<lambda>i. 1)"

section \<open>Termination of the two traversals\<close>

lemma nth_update_if: "xs[i := x] ! j = (if i = j \<and> i < length xs then x else xs ! j)"
  by (cases "i < length xs") (auto simp: nth_list_update list_update_beyond)

lemma dframe_refl: "dframe u 0 st st"
  by (simp add: dframe_def)

lemma dframe_trans: "dframe u n st st1 \<Longrightarrow> dframe u m st1 st2 \<Longrightarrow> dframe u (n + m) st st2"
  by (simp add: dframe_def)

lemma keygen_edge_frame:
  assumes "keygen_edge self u vis v (st, q, rnd) = Inr (st', q', rnd')"
  shows "dframe u 1 st st'" and "q' = q @ [v]" and "v \<notin> vis"
  using assms
  by (auto simp: keygen_edge_def dframe_def Let_def nth_update_if
           split: if_splits sum.splits prod.splits)

lemma keygen_edges_frame:
  "keygen_edges self u vis vs (st, q, rnd) = Inr (st', q', rnd') \<Longrightarrow>
     dframe u (length vs) st st' \<and> q' = q @ vs \<and> set vs \<inter> vis = {}"
proof (induction vs arbitrary: st q rnd)
  case Nil
  then show ?case by (simp add: dframe_refl)
next
  case (Cons v vs)
  from Cons.prems obtain st1 q1 rnd1 where
    a: "keygen_edge self u vis v (st, q, rnd) = Inr (st1, q1, rnd1)" and
    b: "keygen_edges self u vis vs (st1, q1, rnd1) = Inr (st', q', rnd')"
    by (auto split: sum.splits)
  from keygen_edge_frame[OF a] Cons.IH[OF b] dframe_trans[of u 1 st st1 "length vs" st']
  show ?case by simp
qed

lemma traversal_decreases:
  assumes u: "u < length st" and len: "length st' = length st"
    and vs: "set vs \<inter> insert u visited = {}"
  shows "(traversal_measure (st', q @ vs, insert u visited), traversal_measure (st, u # q, visited))
         \<in> less_than <*lex*> less_than"
proof (cases "u \<in> visited")
  case False
  have "unvisited st' (insert u visited) \<subset> unvisited st visited"
    using False u len by (auto simp: unvisited_def)
  moreover have "finite (unvisited st visited)"
    by (simp add: unvisited_def)
  ultimately have "card (unvisited st' (insert u visited)) < card (unvisited st visited)"
    by (rule psubset_card_mono[rotated])
  then show ?thesis by (simp add: traversal_measure_def)
next
  case True
  then have i: "insert u visited = visited" by auto
  have "filter (\<lambda>x. x \<in> visited) vs = []"
    using vs i by (auto simp: filter_empty_conv)
  then show ?thesis
    using True len by (simp add: traversal_measure_def i unvisited_def)
qed

termination keygen_loop
proof (relation "inv_image (less_than <*lex*> less_than)
         (\<lambda>(self, st, q, visited, rnd). traversal_measure (st, q, visited))", goal_cases)
  case 1
  show ?case by (intro wf_inv_image wf_lex_prod wf_less_than)
next
  case (2 self st u q visited rnd b x y xa ya)
  then have "keygen_edges self u (insert u visited) (edges (st ! u)) (st, q, rnd) = Inr (x, xa, ya)"
    by simp
  from keygen_edges_frame[OF this] have "length x = length st" "xa = q @ edges (st ! u)"
    "set (edges (st ! u)) \<inter> insert u visited = {}"
    by (simp_all add: dframe_def)
  with traversal_decreases[of u st x "edges (st ! u)" visited q] 2 show ?case
    by (simp only: in_inv_image prod.case) simp
qed

lemma Arcula_keygen_node_frame:
  assumes "Arcula_keygen_node self cold u (st, rnd) = Inr (st', rnd')"
  shows "length st' = length st"
    and "a < length st \<Longrightarrow> DHKANode.truncate (st' ! a) = DHKANode.truncate (st ! a)"
  using assms
  by (auto simp: Arcula_keygen_node_def Let_def nth_update_if DHKANode.truncate_def
           split: if_splits sum.splits prod.splits option.splits)

termination Arcula_keygen_loop
proof (relation "inv_image (less_than <*lex*> less_than)
         (\<lambda>(self, cold, st, q, visited, rnd). traversal_measure (st, q, visited))", goal_cases)
  case 1
  show ?case by (intro wf_inv_image wf_lex_prod wf_less_than)
next
  case (2 self cold st u q visited rnd b x y)
  then have "Arcula_keygen_node self cold u (st, rnd) = Inr (x, y)"
    by simp
  from Arcula_keygen_node_frame(1)[OF this] have "length x = length st" .
  with traversal_decreases[of u st x "filter (\<lambda>v. v \<notin> insert u visited) (edges (x ! u))" visited q] 2
  show ?case
    by (simp only: in_inv_image prod.case) auto
qed

section \<open>Graph lemmas: shape, reachability, and the traversal invariant\<close>

lemma same_shape_refl: "same_shape st st"
  by (simp add: same_shape_def)

lemma same_shape_trans: "same_shape st st1 \<Longrightarrow> same_shape st1 st2 \<Longrightarrow> same_shape st st2"
  by (simp add: same_shape_def)

lemma same_shape_edge_rel: "same_shape st st' \<Longrightarrow> edge_rel st' = edge_rel st"
  by (auto simp: same_shape_def edge_rel_def)

lemma same_shape_reachable: "same_shape st st' \<Longrightarrow> reachable st' r = reachable st r"
  by (simp add: reachable_def same_shape_edge_rel)

lemma reachable_root: "r \<in> reachable st r"
  by (simp add: reachable_def)

lemma reachable_step:
  "u \<in> reachable st r \<Longrightarrow> u < length st \<Longrightarrow> v \<in> set (edges (st ! u)) \<Longrightarrow> v \<in> reachable st r"
  by (auto simp: reachable_def edge_rel_def intro: rtrancl_into_rtrancl)

lemma reachable_closed:
  assumes r: "r \<in> S" and c: "\<And>u v. u \<in> S \<Longrightarrow> u < length st \<Longrightarrow> v \<in> set (edges (st ! u)) \<Longrightarrow> v \<in> S"
  shows "reachable st r \<subseteq> S"
proof
  fix v assume "v \<in> reachable st r"
  then have "(r, v) \<in> (edge_rel st)\<^sup>*" by (simp add: reachable_def)
  then show "v \<in> S"
  proof (induction rule: rtrancl_induct)
    case base
    then show ?case by (rule r)
  next
    case (step y z)
    then show ?case using c[of y z] by (auto simp: edge_rel_def)
  qed
qed

lemma is_tree_in_heap: "is_tree st r \<Longrightarrow> u \<in> reachable st r \<Longrightarrow> u < length st"
proof -
  assume t: "is_tree st r" and u: "u \<in> reachable st r"
  from u have "(r, u) \<in> (edge_rel st)\<^sup>*" by (simp add: reachable_def)
  then show ?thesis
  proof (cases rule: rtranclE)
    case base
    then show ?thesis using t by (simp add: is_tree_def)
  next
    case (step y)
    then have "y \<in> reachable st r" "u \<in> set (edges (st ! y))"
      by (auto simp: reachable_def edge_rel_def)
    then show ?thesis using t by (auto simp: is_tree_def)
  qed
qed

lemma same_shape_is_tree:
  assumes s: "same_shape st st'" and t: "is_tree st r"
  shows "is_tree st' r"
proof -
  have e: "\<And>u. u \<in> reachable st r \<Longrightarrow> edges (st' ! u) = edges (st ! u)"
    using s is_tree_in_heap[OF t] by (simp add: same_shape_def)
  have l: "length st' = length st" using s by (simp add: same_shape_def)
  show ?thesis
    using t unfolding is_tree_def same_shape_reachable[OF s] l
    by (simp add: e)
qed

lemma bfs_inv_init: "bfs_inv st r [r] {}"
  by (simp add: bfs_inv_def reachable_root)

lemma bfs_inv_fresh:
  assumes t: "is_tree st r" and i: "bfs_inv st r (u # q) visited"
  shows "set (edges (st ! u)) \<inter> (insert u (set q \<union> visited)) = {}"
proof -
  have u: "u \<in> reachable st r" "u \<notin> visited" using i by (auto simp: bfs_inv_def)
  { fix x assume x: "x \<in> set (edges (st ! u))" and y: "x \<in> insert u (set q \<union> visited)"
    from y i have z: "x \<in> reachable st r" by (auto simp: bfs_inv_def)
    from x u t have "x \<noteq> r" by (auto simp: is_tree_def)
    from y have "x \<in> set (u # q) \<union> visited" by auto
    moreover from i have "\<forall>x \<in> set (u # q) \<union> visited. x = r \<or> (\<exists>p \<in> visited. x \<in> set (edges (st ! p)))"
      by (simp add: bfs_inv_def)
    ultimately have "x = r \<or> (\<exists>p \<in> visited. x \<in> set (edges (st ! p)))" by blast
    with \<open>x \<noteq> r\<close> obtain p where p: "p \<in> visited" "x \<in> set (edges (st ! p))" by blast
    then have "p \<in> reachable st r" "p \<noteq> u" using i u by (auto simp: bfs_inv_def)
    with t u(1) p(2) x have False unfolding is_tree_def by blast }
  then show ?thesis by blast
qed

lemma bfs_inv_step:
  assumes t: "is_tree st r" and i: "bfs_inv st r (u # q) visited"
  shows "bfs_inv st r (q @ edges (st ! u)) (insert u visited)"
proof -
  note f = bfs_inv_fresh[OF t i]
  have u: "u \<in> reachable st r" "u \<notin> visited" "u \<notin> set q" using i by (auto simp: bfs_inv_def)
  have ul: "u < length st" by (rule is_tree_in_heap[OF t u(1)])
  have d: "distinct (edges (st ! u))" using t u by (simp add: is_tree_def)
  have c: "set (edges (st ! u)) \<subseteq> reachable st r"
    using reachable_step[OF u(1) ul] by blast
  show ?thesis
    unfolding bfs_inv_def
  proof (intro conjI)
    show "distinct (q @ edges (st ! u))" using i d f by (auto simp: bfs_inv_def)
    show "set (q @ edges (st ! u)) \<inter> insert u visited = {}"
      using i f u by (auto simp: bfs_inv_def)
    show "set (q @ edges (st ! u)) \<union> insert u visited \<subseteq> reachable st r"
      using i c by (auto simp: bfs_inv_def)
    show "\<forall>x\<in>set (q @ edges (st ! u)) \<union> insert u visited.
       x = r \<or> (\<exists>p\<in>insert u visited. x \<in> set (edges (st ! p)))"
      using i unfolding bfs_inv_def by (auto; blast)
    show "\<forall>p\<in>insert u visited. set (edges (st ! p)) \<subseteq> set (q @ edges (st ! u)) \<union> insert u visited"
      using i unfolding bfs_inv_def by auto
    show "r \<in> set (q @ edges (st ! u)) \<union> insert u visited"
      using i unfolding bfs_inv_def by auto
  qed
qed

lemma bfs_inv_final:
  assumes t: "is_tree st r" and i: "bfs_inv st r [] visited"
  shows "visited = reachable st r"
proof
  show "visited \<subseteq> reachable st r" using i by (simp add: bfs_inv_def)
  show "reachable st r \<subseteq> visited"
    by (rule reachable_closed) (use i in \<open>auto simp: bfs_inv_def\<close>)
qed

section \<open>What one pass over the children of a node writes\<close>

lemma derived_cong:
  "keys_of n' = keys_of n \<Longrightarrow> node_id n' = node_id n \<Longrightarrow> derived self ps n \<Longrightarrow> derived self ps n'"
  by (simp add: keys_of_def derived_def)

lemma derived_keys:
  "derived self ps n \<Longrightarrow> derived self ps n' \<Longrightarrow> node_id n' = node_id n \<Longrightarrow> keys_of n' = keys_of n"
  by (simp add: keys_of_def derived_def)

lemma edge_cipher_cong:
  "keys_of p' = keys_of p \<Longrightarrow> keys_of v' = keys_of v \<Longrightarrow> node_id v' = node_id v \<Longrightarrow>
   edge_cipher self p v c \<Longrightarrow> edge_cipher self p' v' c"
  by (simp add: keys_of_def edge_cipher_def)

lemma label_secret_Inr:
  "label_secret_encryption_key_from_parent self ps i = Inr (l, s, t, k) \<Longrightarrow>
     \<exists>x. ps = Some x \<and> l = be64 i \<and> s = spec_secret (prf_f self) x i \<and>
       t = spec_encryption_key (prf_f self) s i \<and> k = spec_private_key (prf_f self) s i"
  by (auto simp: label_secret_encryption_key_from_parent_def int_to_bytes_8_def be64_def
        spec_secret_def spec_encryption_key_def spec_private_key_def Let_def
        PRF_SECRET_PREFIX_def PRF_ENCRYPTION_PREFIX_def PRF_PRIVATE_KEY_PREFIX_def
      split: if_splits option.splits)

lemma keygen_edge_result:
  assumes e: "keygen_edge self u vis v (st, q, rnd) = Inr (st', q', rnd')"
    and u: "u \<in> vis" "u < length st"
  shows "edges_result self u [v] st st'"
proof -
  from e u have vu: "v \<noteq> u" and vl: "v < length st"
    by (auto simp: keygen_edge_def split: if_splits)
  from e vu vl obtain l s t k where
    d: "label_secret_encryption_key_from_parent self (secret (st ! u)) (node_id (st ! v)) = Inr (l, s, t, k)"
    by (auto simp: keygen_edge_def split: if_splits sum.splits)
  from label_secret_Inr[OF d] obtain ps where ps: "secret (st ! u) = Some ps"
    and l: "l = be64 (node_id (st ! v))" and s: "s = spec_secret (prf_f self) ps (node_id (st ! v))"
    and t: "t = spec_encryption_key (prf_f self) s (node_id (st ! v))"
    and k: "k = spec_private_key (prf_f self) s (node_id (st ! v))" by blast
  define st1 where "st1 = st[v := (st ! v)\<lparr>key := Some k, label := Some l, secret := Some s,
                                       encryption_key := Some t\<rparr>]"
  from e vu vl d obtain pek c where pek: "encryption_key (st ! u) = Some pek"
    and c: "enc_f self rnd (prf_f self pek (PRF_EDGE_PREFIX @ l)) (t @ k) = Inr (c, rnd')"
    and st': "st' = st1[u := (st1 ! u)\<lparr>encrypted_edges := encrypted_edges (st1 ! u) @ [c]\<rparr>]"
    by (auto simp: keygen_edge_def Let_def st1_def edge_encryption_key_def bytes_add_def
          encrypt_edge_def nth_update_if split: if_splits sum.splits option.splits)
  have a: "st' ! u = (st ! u)\<lparr>encrypted_edges := encrypted_edges (st ! u) @ [c]\<rparr>"
    using vu u by (simp add: st' st1_def nth_update_if)
  have b: "st' ! v = (st ! v)\<lparr>key := Some k, label := Some l, secret := Some s,
                                       encryption_key := Some t\<rparr>"
    using vu vl by (simp add: st' st1_def nth_update_if)
  have "edge_cipher self (st' ! u) (st' ! v) c"
    unfolding edge_cipher_def using c pek
    by (auto simp: a b spec_edge_key_def PRF_EDGE_PREFIX_def l)
  moreover have "derived self ps (st' ! v)"
    by (simp add: b derived_def l s t k)
  moreover have "\<forall>a<length st. a \<noteq> u \<longrightarrow> a \<notin> set [v] \<longrightarrow> st' ! a = st ! a"
    by (simp add: st' st1_def nth_update_if)
  ultimately show ?thesis
    unfolding edges_result_def using vu ps
    by (auto simp: a keys_of_def intro!: exI[of _ "[c]"])
qed

lemma dframe_same_shape: "dframe u n st st' \<Longrightarrow> same_shape st st'"
  by (simp add: dframe_def same_shape_def)

lemma edges_result_Nil: "edges_result self u [] st st"
  by (simp add: edges_result_def)

lemma edges_result_Cons:
  assumes a: "edges_result self u [v] st st1" and b: "edges_result self u vs st1 st'"
    and s: "same_shape st st1" "same_shape st1 st'" and vl: "v < length st"
  shows "edges_result self u (v # vs) st st'"
proof -
  from a have vu: "v \<noteq> u" by (simp add: edges_result_def)
  from a obtain c where c: "encrypted_edges (st1 ! u) = encrypted_edges (st ! u) @ [c]"
    "edge_cipher self (st1 ! u) (st1 ! v) c"
    unfolding edges_result_def by (auto simp: length_Suc_conv)
  from b obtain cs where cs: "length cs = length vs"
    "encrypted_edges (st' ! u) = encrypted_edges (st1 ! u) @ cs"
    "\<forall>i<length vs. edge_cipher self (st' ! u) (st' ! (vs ! i)) (cs ! i)"
    unfolding edges_result_def by blast
  from a obtain ps where ps: "secret (st1 ! u) = Some ps" "derived self ps (st1 ! v)"
    unfolding edges_result_def by auto
  have ku: "keys_of (st' ! u) = keys_of (st1 ! u)" "keys_of (st1 ! u) = keys_of (st ! u)"
    using a b by (simp_all add: edges_result_def)
  have len: "length st1 = length st" using s by (simp add: same_shape_def)
  have idv: "node_id (st' ! v) = node_id (st1 ! v)"
    using s vl by (simp add: same_shape_def)
  have dv: "derived self ps (st' ! v)"
  proof (cases "v \<in> set vs")
    case True
    with b obtain ps' where "secret (st' ! u) = Some ps'" "derived self ps' (st' ! v)"
      unfolding edges_result_def by blast
    moreover have "secret (st' ! u) = secret (st1 ! u)" using ku by (simp add: keys_of_def)
    ultimately show ?thesis using ps by simp
  next
    case False
    with b vu vl len have "st' ! v = st1 ! v" by (simp add: edges_result_def)
    then show ?thesis using ps by simp
  qed
  have kv: "keys_of (st' ! v) = keys_of (st1 ! v)"
    by (rule derived_keys[OF ps(2) dv idv])
  have c0: "edge_cipher self (st' ! u) (st' ! v) c"
    by (rule edge_cipher_cong[OF ku(1) kv idv c(2)])
  have "\<forall>i<length (v # vs). edge_cipher self (st' ! u) (st' ! ((v # vs) ! i)) ((c # cs) ! i)"
    using c0 cs(3) by (auto simp: nth_Cons split: nat.splits)
  moreover have "encrypted_edges (st' ! u) = encrypted_edges (st ! u) @ (c # cs)"
    using c cs by simp
  moreover have "length (c # cs) = length (v # vs)" using cs by simp
  ultimately have 1: "\<exists>cs. length cs = length (v # vs) \<and>
        encrypted_edges (st' ! u) = encrypted_edges (st ! u) @ cs \<and>
        (\<forall>i<length (v # vs). edge_cipher self (st' ! u) (st' ! ((v # vs) ! i)) (cs ! i))"
    by blast
  have 2: "\<forall>w \<in> set (v # vs). \<exists>ps. secret (st' ! u) = Some ps \<and> derived self ps (st' ! w)"
  proof
    fix w assume "w \<in> set (v # vs)"
    then consider "w = v" | "w \<in> set vs" by auto
    then show "\<exists>ps. secret (st' ! u) = Some ps \<and> derived self ps (st' ! w)"
    proof cases
      case 1
      have "secret (st' ! u) = Some ps" using ku ps by (simp add: keys_of_def)
      with dv 1 show ?thesis by blast
    next
      case 2
      with b show ?thesis by (simp add: edges_result_def)
    qed
  qed
  have 3: "\<forall>a<length st. a \<noteq> u \<longrightarrow> a \<notin> set (v # vs) \<longrightarrow> st' ! a = st ! a"
    using a b len by (simp add: edges_result_def)
  have 4: "u \<notin> set (v # vs)" using a b by (simp add: edges_result_def)
  show ?thesis
    unfolding edges_result_def using 1 2 3 4 ku by simp
qed

lemma keygen_edges_result:
  "keygen_edges self u vis vs (st, q, rnd) = Inr (st', q', rnd') \<Longrightarrow> u \<in> vis \<Longrightarrow> u < length st \<Longrightarrow>
     edges_result self u vs st st'"
proof (induction vs arbitrary: st q rnd)
  case Nil
  then show ?case by (simp add: edges_result_Nil)
next
  case (Cons v vs)
  from Cons.prems(1) obtain st1 q1 rnd1 where
    a: "keygen_edge self u vis v (st, q, rnd) = Inr (st1, q1, rnd1)" and
    b: "keygen_edges self u vis vs (st1, q1, rnd1) = Inr (st', q', rnd')"
    by (auto split: sum.splits)
  have s1: "same_shape st st1" using keygen_edge_frame(1)[OF a] by (rule dframe_same_shape)
  then have len: "length st1 = length st" by (simp add: same_shape_def)
  have s2: "same_shape st1 st'" using keygen_edges_frame[OF b] by (blast intro: dframe_same_shape)
  have vl: "v < length st" using a by (auto simp: keygen_edge_def split: if_splits)
  show ?case
    by (rule edges_result_Cons[OF keygen_edge_result[OF a Cons.prems(2,3)]
          Cons.IH[OF b Cons.prems(2)] s1 s2 vl]) (simp add: len Cons.prems(3))
qed

section \<open>The invariant of the derivation on a tree\<close>

lemma node_ok_cong:
  assumes ok: "node_ok self st p"
    and p: "keys_of (st' ! p) = keys_of (st ! p)" "edges (st' ! p) = edges (st ! p)"
      "encrypted_edges (st' ! p) = encrypted_edges (st ! p)"
    and c: "\<And>v. v \<in> set (edges (st ! p)) \<Longrightarrow>
              keys_of (st' ! v) = keys_of (st ! v) \<and> node_id (st' ! v) = node_id (st ! v)"
  shows "node_ok self st' p"
  unfolding node_ok_def
proof (intro conjI allI impI)
  show "length (encrypted_edges (st' ! p)) = length (edges (st' ! p))"
    using ok p by (simp add: node_ok_def)
next
  fix i assume i: "i < length (edges (st' ! p))"
  then have m: "edges (st ! p) ! i \<in> set (edges (st ! p))" using p by simp
  from ok i p obtain ps where ps: "secret (st ! p) = Some ps"
    "derived self ps (st ! (edges (st ! p) ! i))"
    by (auto simp: node_ok_def)
  have "secret (st' ! p) = Some ps" using p(1) ps(1) by (simp add: keys_of_def)
  moreover have "derived self ps (st' ! (edges (st' ! p) ! i))"
    using derived_cong[OF _ _ ps(2), of "st' ! (edges (st ! p) ! i)"] c[OF m] p(2) by simp
  ultimately show "\<exists>ps. secret (st' ! p) = Some ps \<and> derived self ps (st' ! (edges (st' ! p) ! i))"
    by blast
  from ok i p have "edge_cipher self (st ! p) (st ! (edges (st ! p) ! i)) (encrypted_edges (st ! p) ! i)"
    by (simp add: node_ok_def)
  from edge_cipher_cong[OF p(1) _ _ this, of "st' ! (edges (st ! p) ! i)"] c[OF m]
  show "edge_cipher self (st' ! p) (st' ! (edges (st' ! p) ! i)) (encrypted_edges (st' ! p) ! i)"
    using p by simp
qed

lemma keys_inv_step:
  assumes t: "is_tree st r" and b: "bfs_inv st r (u # q) visited"
    and k: "keys_inv self seed st r visited"
    and e: "keygen_edges self u (insert u visited) (edges (st ! u)) (st, q, rnd) = Inr (st', q', rnd')"
    and l: "length (encrypted_edges (st' ! u)) = length (edges (st' ! u))"
  shows "keys_inv self seed st' r (insert u visited)"
proof -
  have ur: "u \<in> reachable st r" using b by (simp add: bfs_inv_def)
  have ul: "u < length st" by (rule is_tree_in_heap[OF t ur])
  note f = bfs_inv_fresh[OF t b]
  from keygen_edges_frame[OF e] have df: "dframe u (length (edges (st ! u))) st st'" by simp
  then have sh: "same_shape st st'" by (rule dframe_same_shape)
  have res: "edges_result self u (edges (st ! u)) st st'"
    by (rule keygen_edges_result[OF e _ ul]) simp
  have inheap: "\<And>x. x \<in> reachable st r \<Longrightarrow> x < length st"
    by (rule is_tree_in_heap[OF t])
  have same: "\<And>a. a \<in> reachable st r \<Longrightarrow> a \<notin> set (edges (st ! u)) \<Longrightarrow>
     keys_of (st' ! a) = keys_of (st ! a) \<and> node_id (st' ! a) = node_id (st ! a) \<and>
     edges (st' ! a) = edges (st ! a)"
  proof -
    fix a assume a: "a \<in> reachable st r" "a \<notin> set (edges (st ! u))"
    show "keys_of (st' ! a) = keys_of (st ! a) \<and> node_id (st' ! a) = node_id (st ! a) \<and>
     edges (st' ! a) = edges (st ! a)"
    proof (cases "a = u")
      case True
      then show ?thesis using res sh ul by (simp add: edges_result_def same_shape_def)
    next
      case False
      then have "st' ! a = st ! a" using res a inheap[OF a(1)] by (simp add: edges_result_def)
      then show ?thesis by simp
    qed
  qed
  have rt: "r \<in> reachable st r" by (rule reachable_root)
  have rn: "r \<notin> set (edges (st ! u))" using t ur by (simp add: is_tree_def)
  have 1: "derived self seed (st' ! r)"
    using same[OF rt rn] k by (auto simp: keys_inv_def intro: derived_cong)
  have 2: "node_ok self st' p" if p: "p \<in> visited" for p
  proof -
    have pr: "p \<in> reachable st r" using b p by (auto simp: bfs_inv_def)
    have pn: "p \<notin> set (edges (st ! u))" "p \<noteq> u" using f p b by (auto simp: bfs_inv_def)
    have pp: "st' ! p = st ! p" using res pn inheap[OF pr] by (simp add: edges_result_def)
    have ch: "set (edges (st ! p)) \<subseteq> set (u # q) \<union> visited" using b p by (simp add: bfs_inv_def)
    show ?thesis
    proof (rule node_ok_cong[of self st p])
      show "node_ok self st p" using k p by (simp add: keys_inv_def)
      show "keys_of (st' ! p) = keys_of (st ! p)" "edges (st' ! p) = edges (st ! p)"
        "encrypted_edges (st' ! p) = encrypted_edges (st ! p)" by (simp_all add: pp)
    next
      fix v assume v: "v \<in> set (edges (st ! p))"
      then have "v \<in> reachable st r" by (rule reachable_step[OF pr inheap[OF pr]])
      moreover have "v \<notin> set (edges (st ! u))" using v ch f by auto
      ultimately show "keys_of (st' ! v) = keys_of (st ! v) \<and> node_id (st' ! v) = node_id (st ! v)"
        using same by blast
    qed
  qed
  have eu: "edges (st' ! u) = edges (st ! u)" using sh ul by (simp add: same_shape_def)
  from res obtain cs where cs: "length cs = length (edges (st ! u))"
    "encrypted_edges (st' ! u) = encrypted_edges (st ! u) @ cs"
    "\<forall>i<length (edges (st ! u)). edge_cipher self (st' ! u) (st' ! (edges (st ! u) ! i)) (cs ! i)"
    unfolding edges_result_def by blast
  from cs(1,2) l eu have "encrypted_edges (st ! u) = []" by simp
  then have ecs: "encrypted_edges (st' ! u) = cs" using cs by simp
  have 3: "node_ok self st' u"
    unfolding node_ok_def eu ecs
  proof (intro conjI allI impI)
    show "length cs = length (edges (st ! u))" by (rule cs(1))
  next
    fix i assume i: "i < length (edges (st ! u))"
    then have "edges (st ! u) ! i \<in> set (edges (st ! u))" by simp
    with res show "\<exists>ps. secret (st' ! u) = Some ps \<and> derived self ps (st' ! (edges (st ! u) ! i))"
      unfolding edges_result_def by blast
    from cs(3) i show "edge_cipher self (st' ! u) (st' ! (edges (st ! u) ! i)) (cs ! i)" by blast
  qed
  show ?thesis unfolding keys_inv_def using 1 2 3 by auto
qed

lemma bfs_inv_shape:
  assumes s: "same_shape st st'" and t: "is_tree st r" and b: "bfs_inv st r q visited"
  shows "bfs_inv st' r q visited"
proof -
  have e: "\<And>u. u \<in> reachable st r \<Longrightarrow> edges (st' ! u) = edges (st ! u)"
    using s is_tree_in_heap[OF t] by (simp add: same_shape_def)
  have v: "visited \<subseteq> reachable st r" using b by (simp add: bfs_inv_def)
  then have "\<And>p. p \<in> visited \<Longrightarrow> edges (st' ! p) = edges (st ! p)" using e by blast
  then show ?thesis
    using b unfolding bfs_inv_def same_shape_reachable[OF s] by simp
qed

lemma keygen_loop_post:
  "keygen_loop self (st, q, visited, rnd) = Inr (st', rnd') \<Longrightarrow> is_tree st r \<Longrightarrow>
   bfs_inv st r q visited \<Longrightarrow> keys_inv self seed st r visited \<Longrightarrow>
     same_shape st st' \<and> keys_inv self seed st' r (reachable st r)"
proof (induction self "(st, q, visited, rnd)" arbitrary: st q visited rnd rule: keygen_loop.induct)
  case (1 self st visited rnd)
  then show ?case using bfs_inv_final[of st r visited] by (simp add: same_shape_refl)
next
  case (2 self st u q visited rnd)
  have ur: "u \<in> reachable st r" using "2.prems"(3) by (simp add: bfs_inv_def)
  have ul: "u < length st" by (rule is_tree_in_heap[OF "2.prems"(2) ur])
  from "2.prems"(1) ul obtain st1 q1 rnd1 where
    e: "keygen_edges self u (insert u visited) (edges (st ! u)) (st, q, rnd) = Inr (st1, q1, rnd1)"
    and l: "length (encrypted_edges (st1 ! u)) = length (edges (st1 ! u))"
    and rest: "keygen_loop self (st1, q1, insert u visited, rnd1) = Inr (st', rnd')"
    by (auto split: sum.splits if_splits)
  from keygen_edges_frame[OF e] have df: "dframe u (length (edges (st ! u))) st st1"
    and q1: "q1 = q @ edges (st ! u)" by simp_all
  have sh: "same_shape st st1" using df by (rule dframe_same_shape)
  have t1: "is_tree st1 r" by (rule same_shape_is_tree[OF sh "2.prems"(2)])
  have b1: "bfs_inv st1 r q1 (insert u visited)"
    unfolding q1 by (rule bfs_inv_shape[OF sh "2.prems"(2) bfs_inv_step[OF "2.prems"(2,3)]])
  have k1: "keys_inv self seed st1 r (insert u visited)"
    by (rule keys_inv_step[OF "2.prems"(2,3,4) e l])
  have nn: "\<not> \<not> u < length st" using ul by simp
  from "2.hyps"[OF nn e refl refl l rest t1 b1 k1]
  have "same_shape st1 st' \<and> keys_inv self seed st' r (reachable st1 r)" by simp
  then show ?case using same_shape_trans[OF sh] same_shape_reachable[OF sh] by auto
qed

section \<open>The postcondition of the derivation\<close>

lemma DHKA_keygen_post:
  assumes t: "is_tree st (root self)"
    and k: "DHKA_keygen self seed (st, rnd) = Inr (st', rnd')"
  shows "same_shape st st'" and "keys_inv self seed st' (root self) (reachable st (root self))"
proof -
  let ?r = "root self"
  have rl: "?r < length st" using t by (simp add: is_tree_def)
  from k rl obtain l s t' k' where
    d: "label_secret_encryption_key_from_parent self (Some seed) (node_id (st ! ?r)) = Inr (l, s, t', k')"
    by (auto simp: DHKA_keygen_def split: sum.splits)
  define st0 where "st0 = st[?r := (st ! ?r)\<lparr>key := Some k', label := Some l,
                                                 secret := Some s, encryption_key := Some t'\<rparr>]"
  from k rl d have loop: "keygen_loop self (st0, [?r], {}, rnd) = Inr (st', rnd')"
    by (simp add: DHKA_keygen_def st0_def)
  have sh: "same_shape st st0"
    by (simp add: same_shape_def st0_def nth_update_if)
  have t0: "is_tree st0 ?r" by (rule same_shape_is_tree[OF sh t])
  have "derived self seed (st0 ! ?r)"
    using label_secret_Inr[OF d] rl by (auto simp: st0_def derived_def)
  then have k0: "keys_inv self seed st0 ?r {}" by (simp add: keys_inv_def)
  from keygen_loop_post[OF loop t0 bfs_inv_init k0]
  have "same_shape st0 st'" "keys_inv self seed st' ?r (reachable st0 ?r)" by simp_all
  then show "same_shape st st'" "keys_inv self seed st' (root self) (reachable st (root self))"
    using same_shape_trans[OF sh] same_shape_reachable[OF sh] by simp_all
qed

section \<open>A check of the tree shape that can be evaluated\<close>

lemma nth_subset_Union: "i < length xss \<Longrightarrow> set (xss ! i) \<subseteq> \<Union> (set ` set xss)"
  by (metis UN_upper nth_mem)

lemma distinct_concat_disjoint:
  "distinct (concat xss) \<Longrightarrow> i < length xss \<Longrightarrow> j < length xss \<Longrightarrow> i \<noteq> j \<Longrightarrow>
     set (xss ! i) \<inter> set (xss ! j) = {}"
proof (induction xss arbitrary: i j)
  case Nil
  then show ?case by simp
next
  case (Cons xs xss)
  show ?case
  proof (cases i)
    case 0
    then obtain j' where "j = Suc j'" using Cons.prems by (cases j) auto
    then show ?thesis using 0 Cons.prems nth_subset_Union[of j' xss] by auto
  next
    case (Suc i')
    show ?thesis
    proof (cases j)
      case 0
      then show ?thesis using Suc Cons.prems nth_subset_Union[of i' xss] by auto
    next
      case (Suc j')
      then show ?thesis using \<open>i = Suc i'\<close> Cons.prems Cons.IH[of i' j'] by auto
    qed
  qed
qed

lemma tree_check_is_tree:
  assumes c: "tree_check st r"
  shows "is_tree st r"
proof -
  have inheap: "u < length st" if "u \<in> reachable st r" for u
  proof -
    have "reachable st r \<subseteq> {a. a < length st}"
      by (rule reachable_closed) (use c in \<open>auto simp: tree_check_def\<close>)
    with that show ?thesis by blast
  qed
  have d: "distinct (concat (map edges st))" using c by (simp add: tree_check_def)
  { fix u assume "u \<in> reachable st r"
    then have u: "u < length st" by (rule inheap)
    then have "edges (st ! u) \<in> set (map edges st)" by simp
    then have "distinct (edges (st ! u))" "set (edges (st ! u)) \<subseteq> set (concat (map edges st))"
      using d by (auto simp: distinct_concat_iff)
    then have "distinct (edges (st ! u))" "r \<notin> set (edges (st ! u))"
      "\<forall>v \<in> set (edges (st ! u)). v < length st"
      using c unfolding tree_check_def by auto }
  note a = this
  { fix u p assume "u \<in> reachable st r" "p \<in> reachable st r" "u \<noteq> p"
    then have "set (edges (st ! u)) \<inter> set (edges (st ! p)) = {}"
      using distinct_concat_disjoint[OF d, of u p] inheap by simp }
  note b = this
  show ?thesis
    unfolding is_tree_def using c a b by (simp add: tree_check_def)
qed

section \<open>Runs of the small instances\<close>

lemma toy_tree: "is_tree hardcoded 0"
  by (rule tree_check_is_tree) (simp add: tree_check_def hardcoded_def bare_def)

lemma toy_run: "\<not> isl (DHKA_keygen (toy_dhka 0) toy_seed (hardcoded, zeros))"
  by code_simp

section \<open>The derivation rules on a tree\<close>

text \<open>
  On a hierarchy whose reachable structure is a tree, after \<^verbatim>\<open>DHKA.keygen\<close> has
  returned: the root carries label \<open>be64 id\<close>, secret \<open>PRF(seed, 0x03 || label)\<close>, encryption
  key \<open>PRF(secret, 0x00 || label)\<close> and private key \<open>PRF(secret, 0x01 || label)\<close>; every
  child \<open>v\<close> of every reachable node \<open>u\<close> carries the same tuple computed from the secret
  of \<open>u\<close>; and the entry of \<open>u.encrypted_edges\<close> at the index of \<open>v\<close> is an encryption of
  \<open>encryption_key(v) || private_key(v)\<close> under \<open>PRF(u.encryption_key, 0x02 || be64(v.id))\<close>.
  Ids and edges are left as they were.
\<close>

lemma keygen_derivation_rules:
  assumes "is_tree st (root self)"
    and "DHKA_keygen self seed (st, rnd) = Inr (st', rnd')"
  shows "derived self seed (st' ! root self) \<and>
         (\<forall>u \<in> reachable st (root self). \<forall>i < length (edges (st ! u)).
            (\<exists>ps. secret (st' ! u) = Some ps \<and> derived self ps (st' ! (edges (st ! u) ! i))) \<and>
            edge_cipher self (st' ! u) (st' ! (edges (st ! u) ! i)) (encrypted_edges (st' ! u) ! i)) \<and>
         (\<forall>a < length st. node_id (st' ! a) = node_id (st ! a) \<and> edges (st' ! a) = edges (st ! a))"
proof -
  note p = DHKA_keygen_post[OF assms]
  have e: "edges (st' ! u) = edges (st ! u)" if "u \<in> reachable st (root self)" for u
    using p(1) is_tree_in_heap[OF assms(1) that] by (simp add: same_shape_def)
  show ?thesis
    using p e unfolding keys_inv_def node_ok_def same_shape_def by auto
qed

lemma keygen_derivation_rules_witness:
  "is_tree hardcoded 0 \<and>
   (\<exists>st' rnd'. DHKA_keygen (toy_dhka 0) toy_seed (hardcoded, zeros) = Inr (st', rnd') \<and>
      derived (toy_dhka 0) toy_seed (st' ! 0) \<and>
      (\<exists>ps. secret (st' ! 0) = Some ps \<and> derived (toy_dhka 0) ps (st' ! 2)) \<and>
      edge_cipher (toy_dhka 0) (st' ! 0) (st' ! 2) (encrypted_edges (st' ! 0) ! 1))"
proof -
  obtain st' rnd' where r: "DHKA_keygen (toy_dhka 0) toy_seed (hardcoded, zeros) = Inr (st', rnd')"
    using toy_run by (metis sum.collapse(2) surj_pair)
  have rt: "root (toy_dhka 0) = 0" by (simp add: toy_dhka_def)
  have t: "is_tree hardcoded (root (toy_dhka 0))" using toy_tree by (simp add: rt)
  have z: "0 \<in> reachable hardcoded (root (toy_dhka 0))"
    using reachable_root[of 0 hardcoded] by (simp add: rt)
  have i: "1 < length (edges (hardcoded ! 0))" and j: "edges (hardcoded ! 0) ! 1 = 2"
    by (simp_all add: hardcoded_def bare_def)
  note k = keygen_derivation_rules[OF t r]
  from k have a: "derived (toy_dhka 0) toy_seed (st' ! 0)"
    by (simp add: rt)
  from k have b: "\<forall>u \<in> reachable hardcoded (root (toy_dhka 0)). \<forall>i < length (edges (hardcoded ! u)).
            (\<exists>ps. secret (st' ! u) = Some ps \<and> derived (toy_dhka 0) ps (st' ! (edges (hardcoded ! u) ! i))) \<and>
            edge_cipher (toy_dhka 0) (st' ! u) (st' ! (edges (hardcoded ! u) ! i)) (encrypted_edges (st' ! u) ! i)"
    by blast
  from b[rule_format, OF z i] have c:
    "(\<exists>ps. secret (st' ! 0) = Some ps \<and> derived (toy_dhka 0) ps (st' ! 2)) \<and>
      edge_cipher (toy_dhka 0) (st' ! 0) (st' ! 2) (encrypted_edges (st' ! 0) ! 1)"
    by (simp only: j)
  from toy_tree r a c show ?thesis by blast
qed

section \<open>Index alignment of the encrypted edges\<close>

lemma keygen_loop_filled:
  "keygen_loop self (st, q, visited, rnd) = Inr (st', rnd') \<Longrightarrow> filled st visited (set q) \<Longrightarrow>
     same_shape st st' \<and> (\<exists>V. visited \<union> set q \<subseteq> V \<and> filled st' V {})"
proof (induction self "(st, q, visited, rnd)" arbitrary: st q visited rnd rule: keygen_loop.induct)
  case (1 self st visited rnd)
  then show ?case by (auto simp: same_shape_refl)
next
  case (2 self st u q visited rnd)
  from "2.prems"(1) have ul: "u < length st" by (auto split: if_splits)
  from "2.prems"(1) ul obtain st1 q1 rnd1 where
    e: "keygen_edges self u (insert u visited) (edges (st ! u)) (st, q, rnd) = Inr (st1, q1, rnd1)"
    and l: "length (encrypted_edges (st1 ! u)) = length (edges (st1 ! u))"
    and rest: "keygen_loop self (st1, q1, insert u visited, rnd1) = Inr (st', rnd')"
    by (auto split: sum.splits if_splits)
  from keygen_edges_frame[OF e] have df: "dframe u (length (edges (st ! u))) st st1"
    and q1: "q1 = q @ edges (st ! u)" by simp_all
  have sh: "same_shape st st1" using df by (rule dframe_same_shape)
  have f1: "filled st1 (insert u visited) (set q1)"
    unfolding filled_def
  proof
    fix p assume p: "p \<in> insert u visited"
    show "p < length st1 \<and> length (encrypted_edges (st1 ! p)) = length (edges (st1 ! p)) \<and>
        set (edges (st1 ! p)) \<subseteq> insert u visited \<union> set q1"
    proof (cases "p = u")
      case True
      then show ?thesis using l ul df by (auto simp: dframe_def q1)
    next
      case False
      with p have pv: "p \<in> visited" by simp
      with "2.prems"(2) have "p < length st"
        "length (encrypted_edges (st ! p)) = length (edges (st ! p))"
        "set (edges (st ! p)) \<subseteq> visited \<union> set (u # q)"
        by (simp_all add: filled_def)
      then show ?thesis using False df by (auto simp: dframe_def q1)
    qed
  qed
  have nn: "\<not> \<not> u < length st" using ul by simp
  from "2.hyps"[OF nn e refl refl l rest f1]
  obtain V where "same_shape st1 st'" "insert u visited \<union> set q1 \<subseteq> V" "filled st' V {}" by blast
  then show ?case using same_shape_trans[OF sh] by (auto simp: q1)
qed

lemma DHKA_keygen_filled:
  assumes k: "DHKA_keygen self seed (st, rnd) = Inr (st', rnd')"
    and u: "u \<in> reachable st (root self)"
  shows "length (encrypted_edges (st' ! u)) = length (edges (st' ! u))"
proof -
  let ?r = "root self"
  from k have rl: "?r < length st" by (auto simp: DHKA_keygen_def split: if_splits)
  from k rl obtain l s t' k' where
    d: "label_secret_encryption_key_from_parent self (Some seed) (node_id (st ! ?r)) = Inr (l, s, t', k')"
    by (auto simp: DHKA_keygen_def split: sum.splits)
  define st0 where "st0 = st[?r := (st ! ?r)\<lparr>key := Some k', label := Some l,
                                                 secret := Some s, encryption_key := Some t'\<rparr>]"
  from k rl d have loop: "keygen_loop self (st0, [?r], {}, rnd) = Inr (st', rnd')"
    by (simp add: DHKA_keygen_def st0_def)
  have sh: "same_shape st st0"
    by (simp add: same_shape_def st0_def nth_update_if)
  from keygen_loop_filled[OF loop] obtain V where
    s1: "same_shape st0 st'" and V: "?r \<in> V" "filled st' V {}"
    by (auto simp: filled_def)
  have s: "same_shape st st'" by (rule same_shape_trans[OF sh s1])
  have "reachable st' ?r \<subseteq> V"
    by (rule reachable_closed) (use V in \<open>auto simp: filled_def\<close>)
  with u have "u \<in> V" unfolding same_shape_reachable[OF s] by blast
  with V show ?thesis by (simp add: filled_def)
qed

text \<open>
  After \<^verbatim>\<open>DHKA.keygen\<close> has returned, every reachable node has as many encrypted
  edges as edges (on every hierarchy); and where the reachable structure is a tree, the edges
  are in their declared order and the encrypted edge at index \<open>i\<close> is the edge ciphertext of
  the child at index \<open>i\<close>.
\<close>

lemma encrypted_edges_index_aligned:
  assumes "DHKA_keygen self seed (st, rnd) = Inr (st', rnd')"
  shows "(\<forall>u \<in> reachable st (root self).
            length (encrypted_edges (st' ! u)) = length (edges (st' ! u))) \<and>
         (is_tree st (root self) \<longrightarrow>
            (\<forall>u \<in> reachable st (root self).
               edges (st' ! u) = edges (st ! u) \<and>
               (\<forall>i < length (edges (st' ! u)).
                  edge_cipher self (st' ! u) (st' ! (edges (st' ! u) ! i))
                    (encrypted_edges (st' ! u) ! i))))"
proof (intro conjI impI ballI)
  fix u assume "u \<in> reachable st (root self)"
  then show "length (encrypted_edges (st' ! u)) = length (edges (st' ! u))"
    by (rule DHKA_keygen_filled[OF assms])
next
  fix u assume t: "is_tree st (root self)" and u: "u \<in> reachable st (root self)"
  note p = DHKA_keygen_post[OF t assms]
  show e: "edges (st' ! u) = edges (st ! u)"
    using p(1) is_tree_in_heap[OF t u] by (simp add: same_shape_def)
  show "\<forall>i < length (edges (st' ! u)).
                  edge_cipher self (st' ! u) (st' ! (edges (st' ! u) ! i))
                    (encrypted_edges (st' ! u) ! i)"
    using p(2) u unfolding keys_inv_def node_ok_def by simp
qed

lemma encrypted_edges_index_aligned_witness:
  "\<exists>st' rnd'. DHKA_keygen (toy_dhka 0) toy_seed (hardcoded, zeros) = Inr (st', rnd') \<and>
      length (encrypted_edges (st' ! 0)) = length (edges (st' ! 0)) \<and>
      is_tree hardcoded 0 \<and> edges (st' ! 0) = [1, 2] \<and>
      edge_cipher (toy_dhka 0) (st' ! 0) (st' ! 1) (encrypted_edges (st' ! 0) ! 0)"
proof -
  obtain st' rnd' where r: "DHKA_keygen (toy_dhka 0) toy_seed (hardcoded, zeros) = Inr (st', rnd')"
    using toy_run by (metis sum.collapse(2) surj_pair)
  have rt: "root (toy_dhka 0) = 0" by (simp add: toy_dhka_def)
  have z: "0 \<in> reachable hardcoded (root (toy_dhka 0))"
    using reachable_root[of 0 hardcoded] by (simp add: rt)
  have t: "is_tree hardcoded (root (toy_dhka 0))" using toy_tree by (simp add: rt)
  note k = encrypted_edges_index_aligned[OF r]
  from k z have a: "length (encrypted_edges (st' ! 0)) = length (edges (st' ! 0))" by blast
  from k t z have b: "edges (st' ! 0) = edges (hardcoded ! 0)" by blast
  then have b': "edges (st' ! 0) = [1, 2]" by (simp add: hardcoded_def bare_def)
  from k t z have "\<forall>i < length (edges (st' ! 0)).
                  edge_cipher (toy_dhka 0) (st' ! 0) (st' ! (edges (st' ! 0) ! i))
                    (encrypted_edges (st' ! 0) ! i)" by blast
  then have c: "edge_cipher (toy_dhka 0) (st' ! 0) (st' ! 1) (encrypted_edges (st' ! 0) ! 0)"
    unfolding b' by (auto dest: spec[of _ 0])
  from r a toy_tree b' c show ?thesis by blast
qed

section \<open>The edge round trip on a tree\<close>

lemma aes_roundtrip:
  assumes g: "\<forall>k n m. length k = 32 \<longrightarrow> decrypt lib k n (encrypt lib k n m) = Some m"
    and e: "aes_ae lib rnd k m = Inr (c, rnd')"
  shows "aes_ad lib k c = Inr m"
  using e g by (auto simp: aes_ae_def aes_ad_def token_bytes_def split: if_splits)

text \<open>
  With the module's own \<^verbatim>\<open>aes_ae\<close> and \<^verbatim>\<open>aes_ad\<close> over a GCM implementation that
  decrypts what it encrypted, on a tree: for every edge from \<open>p\<close> to its \<open>i\<close>-th child \<open>v\<close>,
  decrypting the stored entry with \<open>PRF(p.encryption_key, 0x02 || be64(v.id))\<close> returns
  exactly \<open>v.encryption_key || v.private_key\<close>.
\<close>

lemma edge_round_trip:
  assumes "is_tree st (root self)"
    and "DHKA_keygen self seed (st, rnd) = Inr (st', rnd')"
    and "enc_f self = aes_ae lib" and "dec_f self = aes_ad lib"
    and "\<forall>k n m. length k = 32 \<longrightarrow> decrypt lib k n (encrypt lib k n m) = Some m"
  shows "\<forall>p \<in> reachable st (root self). \<forall>i < length (edges (st' ! p)).
           (\<exists>pek t k. encryption_key (st' ! p) = Some pek \<and>
              encryption_key (st' ! (edges (st' ! p) ! i)) = Some t \<and>
              key (st' ! (edges (st' ! p) ! i)) = Some k \<and>
              dec_f self (spec_edge_key (prf_f self) pek (node_id (st' ! (edges (st' ! p) ! i))))
                (encrypted_edges (st' ! p) ! i) = Inr (t @ k))"
proof (intro ballI allI impI)
  fix p i assume p: "p \<in> reachable st (root self)" and i: "i < length (edges (st' ! p))"
  note post = DHKA_keygen_post[OF assms(1,2)]
  from post(2) p i have "edge_cipher self (st' ! p) (st' ! (edges (st' ! p) ! i))
                    (encrypted_edges (st' ! p) ! i)"
    unfolding keys_inv_def node_ok_def by simp
  then obtain pek t k r r' where
    f: "encryption_key (st' ! p) = Some pek" "encryption_key (st' ! (edges (st' ! p) ! i)) = Some t"
      "key (st' ! (edges (st' ! p) ! i)) = Some k"
    and c: "aes_ae lib r (spec_edge_key (prf_f self) pek (node_id (st' ! (edges (st' ! p) ! i)))) (t @ k)
         = Inr (encrypted_edges (st' ! p) ! i, r')"
    unfolding edge_cipher_def assms(3) by blast
  from aes_roundtrip[OF assms(5) c] f
  show "\<exists>pek t k. encryption_key (st' ! p) = Some pek \<and>
              encryption_key (st' ! (edges (st' ! p) ! i)) = Some t \<and>
              key (st' ! (edges (st' ! p) ! i)) = Some k \<and>
              dec_f self (spec_edge_key (prf_f self) pek (node_id (st' ! (edges (st' ! p) ! i))))
                (encrypted_edges (st' ! p) ! i) = Inr (t @ k)"
    unfolding assms(4) by blast
qed

lemma toy_gcm_correct:
  "\<forall>k n m. length k = 32 \<longrightarrow> decrypt toy_gcm k n (encrypt toy_gcm k n m) = Some m"
  by (simp add: toy_gcm_def)

lemma edge_round_trip_witness:
  "is_tree hardcoded 0 \<and>
   (\<exists>st' rnd'. DHKA_keygen (toy_dhka 0) toy_seed (hardcoded, zeros) = Inr (st', rnd') \<and>
     (\<exists>pek t k. encryption_key (st' ! 0) = Some pek \<and>
        encryption_key (st' ! 2) = Some t \<and> key (st' ! 2) = Some k \<and>
        aes_ad toy_gcm (spec_edge_key toy_prf pek (node_id (st' ! 2)))
                (encrypted_edges (st' ! 0) ! 1) = Inr (t @ k)))"
proof -
  obtain st' rnd' where r: "DHKA_keygen (toy_dhka 0) toy_seed (hardcoded, zeros) = Inr (st', rnd')"
    using toy_run by (metis sum.collapse(2) surj_pair)
  have rt: "root (toy_dhka 0) = 0" by (simp add: toy_dhka_def)
  have z: "0 \<in> reachable hardcoded (root (toy_dhka 0))"
    using reachable_root[of 0 hardcoded] by (simp add: rt)
  have t: "is_tree hardcoded (root (toy_dhka 0))" using toy_tree by (simp add: rt)
  have e: "edges (st' ! 0) = [1, 2]"
    using DHKA_keygen_post(1)[OF t r] by (simp add: same_shape_def hardcoded_def bare_def)
  have f: "enc_f (toy_dhka 0) = aes_ae toy_gcm" "dec_f (toy_dhka 0) = aes_ad toy_gcm"
    "prf_f (toy_dhka 0) = toy_prf"
    by (simp_all add: toy_dhka_def)
  from edge_round_trip[OF t r f(1,2) toy_gcm_correct, rule_format, OF z, of 1]
  have "\<exists>pek t k. encryption_key (st' ! 0) = Some pek \<and>
        encryption_key (st' ! 2) = Some t \<and> key (st' ! 2) = Some k \<and>
        aes_ad toy_gcm (spec_edge_key toy_prf pek (node_id (st' ! 2)))
                (encrypted_edges (st' ! 0) ! 1) = Inr (t @ k)"
    by (simp add: e f)
  with toy_tree r show ?thesis by blast
qed

section \<open>The derivation completes on a well-formed tree\<close>

lemma keygen_edge_succeeds:
  assumes a: "enc_accepts_prf self"
    and v: "v \<notin> vis" "v < length st" "0 \<le> node_id (st ! v)" "node_id (st ! v) < 2 ^ 64"
    and u: "u \<in> vis" "secret (st ! u) = Some ps" "encryption_key (st ! u) = Some pek"
  shows "\<exists>st' q' rnd'. keygen_edge self u vis v (st, q, rnd) = Inr (st', q', rnd')"
proof -
  have vu: "v \<noteq> u" using v u by auto
  obtain l s t k where
    d: "label_secret_encryption_key_from_parent self (secret (st ! u)) (node_id (st ! v)) = Inr (l, s, t, k)"
    using v u by (simp add: label_secret_encryption_key_from_parent_def int_to_bytes_8_def Let_def)
  from a obtain c rnd' where
    "enc_f self rnd (prf_f self pek (PRF_EDGE_PREFIX @ l)) (t @ k) = Inr (c, rnd')"
    unfolding enc_accepts_prf_def by blast
  then show ?thesis
    using v u vu d
    by (simp add: keygen_edge_def Let_def nth_update_if edge_encryption_key_def bytes_add_def
          encrypt_edge_def)
qed

lemma keygen_edges_succeeds:
  assumes a: "enc_accepts_prf self"
  shows "u \<in> vis \<Longrightarrow> u < length st \<Longrightarrow> secret (st ! u) = Some ps \<Longrightarrow>
     encryption_key (st ! u) = Some pek \<Longrightarrow>
     \<forall>v \<in> set vs. v \<notin> vis \<and> v < length st \<and> 0 \<le> node_id (st ! v) \<and> node_id (st ! v) < 2 ^ 64 \<Longrightarrow>
     \<exists>st' q' rnd'. keygen_edges self u vis vs (st, q, rnd) = Inr (st', q', rnd')"
proof (induction vs arbitrary: st q rnd)
  case Nil
  then show ?case by simp
next
  case (Cons v vs)
  from keygen_edge_succeeds[OF a, of v vis st u ps pek q rnd] Cons.prems
  obtain st1 q1 rnd1 where e: "keygen_edge self u vis v (st, q, rnd) = Inr (st1, q1, rnd1)"
    by auto
  have df: "dframe u 1 st st1" by (rule keygen_edge_frame(1)[OF e])
  have res: "edges_result self u [v] st st1"
    by (rule keygen_edge_result[OF e Cons.prems(1,2)])
  have k: "secret (st1 ! u) = Some ps" "encryption_key (st1 ! u) = Some pek"
    using res Cons.prems(3,4) by (simp_all add: edges_result_def keys_of_def)
  have l: "u < length st1" using df Cons.prems(2) by (simp add: dframe_def)
  have r: "\<forall>v \<in> set vs. v \<notin> vis \<and> v < length st1 \<and> 0 \<le> node_id (st1 ! v) \<and> node_id (st1 ! v) < 2 ^ 64"
    using df Cons.prems(5) by (simp add: dframe_def)
  from Cons.IH[OF Cons.prems(1) l k r, of q1 rnd1] e show ?case by simp
qed

lemma same_shape_ids_in_range: "same_shape st st' \<Longrightarrow> is_tree st r \<Longrightarrow> ids_in_range st r \<Longrightarrow> ids_in_range st' r"
  unfolding ids_in_range_def
  using is_tree_in_heap[of st r] by (simp add: same_shape_reachable) (simp add: same_shape_def)

lemma keygen_loop_succeeds:
  "is_tree st r \<Longrightarrow> bfs_inv st r q visited \<Longrightarrow> progress_inv st r q visited \<Longrightarrow>
     enc_accepts_prf self \<Longrightarrow>
     \<exists>st' rnd'. keygen_loop self (st, q, visited, rnd) = Inr (st', rnd')"
proof (induction self "(st, q, visited, rnd)" arbitrary: st q visited rnd rule: keygen_loop.induct)
  case (1 self st visited rnd)
  then show ?case by simp
next
  case (2 self st u q visited rnd)
  note t = "2.prems"(1) and b = "2.prems"(2) and p = "2.prems"(3)
  have ur: "u \<in> reachable st r" "u \<notin> visited" "u \<notin> set q" using b by (auto simp: bfs_inv_def)
  have ul: "u < length st" by (rule is_tree_in_heap[OF t ur(1)])
  note f = bfs_inv_fresh[OF t b]
  have ch: "set (edges (st ! u)) \<subseteq> reachable st r"
    using reachable_step[OF ur(1) ul] by blast
  from p obtain ps pek where k: "secret (st ! u) = Some ps" "encryption_key (st ! u) = Some pek"
    by (auto simp: progress_inv_def)
  have c: "\<forall>v \<in> set (edges (st ! u)). v \<notin> insert u visited \<and> v < length st \<and>
            0 \<le> node_id (st ! v) \<and> node_id (st ! v) < 2 ^ 64"
    using f ch is_tree_in_heap[OF t] p unfolding progress_inv_def ids_in_range_def by blast
  from keygen_edges_succeeds[OF "2.prems"(4) _ ul k c, of q rnd]
  obtain st1 q1 rnd1 where
    e: "keygen_edges self u (insert u visited) (edges (st ! u)) (st, q, rnd) = Inr (st1, q1, rnd1)"
    by auto
  from keygen_edges_frame[OF e] have df: "dframe u (length (edges (st ! u))) st st1"
    and q1: "q1 = q @ edges (st ! u)" by simp_all
  have sh: "same_shape st st1" using df by (rule dframe_same_shape)
  have res: "edges_result self u (edges (st ! u)) st st1"
    by (rule keygen_edges_result[OF e _ ul]) simp
  have "encrypted_edges (st ! u) = []" using p ur by (simp add: progress_inv_def)
  then have l: "length (encrypted_edges (st1 ! u)) = length (edges (st1 ! u))"
    using df ul by (simp add: dframe_def)
  have t1: "is_tree st1 r" by (rule same_shape_is_tree[OF sh t])
  have b1: "bfs_inv st1 r q1 (insert u visited)"
    unfolding q1 by (rule bfs_inv_shape[OF sh t bfs_inv_step[OF t b]])
  have p1: "progress_inv st1 r q1 (insert u visited)"
    unfolding progress_inv_def
  proof (intro conjI ballI impI)
    show "ids_in_range st1 r"
      using same_shape_ids_in_range[OF sh t] p by (simp add: progress_inv_def)
  next
    fix x assume x: "x \<in> reachable st1 r" "x \<notin> insert u visited"
    then have xr: "x \<in> reachable st r" by (simp add: same_shape_reachable[OF sh])
    then have "encrypted_edges (st1 ! x) = encrypted_edges (st ! x)"
      using df x is_tree_in_heap[OF t xr] by (simp add: dframe_def)
    then show "encrypted_edges (st1 ! x) = []" using p xr x by (simp add: progress_inv_def)
  next
    fix x assume x: "x \<in> set q1"
    show "secret (st1 ! x) \<noteq> None"  "encryption_key (st1 ! x) \<noteq> None"
    proof -
      have "secret (st1 ! x) \<noteq> None \<and> encryption_key (st1 ! x) \<noteq> None"
      proof (cases "x \<in> set (edges (st ! u))")
        case True
        with res obtain ps' where "derived self ps' (st1 ! x)"
          unfolding edges_result_def by blast
        then show ?thesis by (simp add: derived_def)
      next
        case False
        with x have xq: "x \<in> set q" by (simp add: q1)
        then have "x \<in> reachable st r" "x \<noteq> u" using b by (auto simp: bfs_inv_def)
        then have "st1 ! x = st ! x"
          using res False is_tree_in_heap[OF t] by (simp add: edges_result_def)
        then show ?thesis using p xq by (simp add: progress_inv_def)
      qed
      then show "secret (st1 ! x) \<noteq> None"  "encryption_key (st1 ! x) \<noteq> None" by simp_all
    qed
  qed
  have nn: "\<not> \<not> u < length st" using ul by simp
  from "2.hyps"[OF nn e refl refl l t1 b1 p1 "2.prems"(4)]
  show ?case using ul e l by simp
qed

lemma DHKA_keygen_succeeds:
  assumes a: "enc_accepts_prf self" and t: "is_tree st (root self)"
    and i: "ids_in_range st (root self)" and n: "no_encrypted_edges st (root self)"
  shows "\<exists>st' rnd'. DHKA_keygen self seed (st, rnd) = Inr (st', rnd')"
proof -
  let ?r = "root self"
  have rl: "?r < length st" using t by (simp add: is_tree_def)
  have "0 \<le> node_id (st ! ?r) \<and> node_id (st ! ?r) < 2 ^ 64"
    using i reachable_root[of ?r st] by (simp add: ids_in_range_def)
  then obtain l s t' k' where
    d: "label_secret_encryption_key_from_parent self (Some seed) (node_id (st ! ?r)) = Inr (l, s, t', k')"
    by (simp add: label_secret_encryption_key_from_parent_def int_to_bytes_8_def Let_def)
  define st0 where "st0 = st[?r := (st ! ?r)\<lparr>key := Some k', label := Some l,
                                                 secret := Some s, encryption_key := Some t'\<rparr>]"
  have sh: "same_shape st st0"
    by (simp add: same_shape_def st0_def nth_update_if)
  have t0: "is_tree st0 ?r" by (rule same_shape_is_tree[OF sh t])
  have "\<forall>a<length st. encrypted_edges (st0 ! a) = encrypted_edges (st ! a)"
    by (simp add: st0_def nth_update_if)
  then have "\<forall>x \<in> reachable st0 ?r. encrypted_edges (st0 ! x) = []"
    using n is_tree_in_heap[OF t] unfolding no_encrypted_edges_def same_shape_reachable[OF sh]
    by simp
  moreover have "secret (st0 ! ?r) \<noteq> None \<and> encryption_key (st0 ! ?r) \<noteq> None"
    using rl by (simp add: st0_def)
  ultimately have p0: "progress_inv st0 ?r [?r] {}"
    using same_shape_ids_in_range[OF sh t i] by (simp add: progress_inv_def)
  from keygen_loop_succeeds[OF t0 bfs_inv_init p0 a, of rnd] d rl
  show ?thesis by (simp add: DHKA_keygen_def st0_def)
qed

lemma tree_check_ids_in_range:
  "tree_check st r \<Longrightarrow> list_all (\<lambda>n. 0 \<le> node_id n \<and> node_id n < 2 ^ 64) st \<Longrightarrow> ids_in_range st r"
  unfolding ids_in_range_def
  using is_tree_in_heap[OF tree_check_is_tree, of st r] by (auto simp: list_all_length)

lemma tree_check_no_encrypted_edges:
  "tree_check st r \<Longrightarrow> list_all (\<lambda>n. encrypted_edges n = []) st \<Longrightarrow> no_encrypted_edges st r"
  unfolding no_encrypted_edges_def
  using is_tree_in_heap[OF tree_check_is_tree, of st r] by (auto simp: list_all_length)

lemma aes_ae_accepts:
  "\<forall>k x. length (prf_f self k x) = 32 \<Longrightarrow> enc_f self = aes_ae lib \<Longrightarrow> enc_accepts_prf self"
  by (simp add: enc_accepts_prf_def aes_ae_def token_bytes_def)

lemma sha3_512_half_k_length:
  "\<forall>m. length (sha3_512 m) = 64 \<Longrightarrow> length (sha3_512_half_k sha3_512 k m) = 32"
  by (simp add: sha3_512_half_k_def sha3_512_half_def Let_def)

lemma default_primitives_accept:
  "\<forall>m. length (sha3_512 m) = 64 \<Longrightarrow> prf_f self = sha3_512_half_k sha3_512 \<Longrightarrow>
     enc_f self = aes_ae lib \<Longrightarrow> enc_accepts_prf self"
  by (rule aes_ae_accepts[of _ lib]) (simp_all add: sha3_512_half_k_length)

lemma toy_prf_length: "length (toy_prf k x) = 32"
  by (simp add: toy_prf_def)

lemma toy_accepts: "enc_accepts_prf (toy_dhka r)"
  by (rule aes_ae_accepts[of _ toy_gcm]) (simp_all add: toy_dhka_def toy_prf_length)

lemma twins_check: "tree_check twins 0"
  by (simp add: tree_check_def twins_def bare_def)

section \<open>Siblings with equal ids in the plain derivation (C10)\<close>

text \<open>
  C10, as stated, fails: a hierarchy in which a parent has two children of equal id need not
  pass the derivation.  With an edge from one of the two children back to the root the run
  stops at the assertion that the poset is a tree; and on the plain tree a second run of
  \<^verbatim>\<open>DHKA.keygen\<close>, which finds the encrypted edges of the first, stops at the assertion on
  the number of encrypted edges.
\<close>

theorem equal_sibling_ids_keygen_can_fail:
  "node_id (twins_back ! 1) = node_id (twins_back ! 2) \<and> edges (twins_back ! 0) = [1, 2] \<and>
   (case DHKA_keygen (toy_dhka 0) toy_seed (twins_back, zeros) of
      Inl (e, st') \<Rightarrow> e = AssertionError NotATree
    | Inr r \<Rightarrow> False) \<and>
   node_id (twins ! 1) = node_id (twins ! 2) \<and> edges (twins ! 0) = [1, 2] \<and>
   (case DHKA_keygen (toy_dhka 0) toy_seed (twins, zeros) of
      Inl e \<Rightarrow> False
    | Inr (st1, rnd1) \<Rightarrow>
        (case DHKA_keygen (toy_dhka 0) toy_seed (st1, rnd1) of
           Inl (e, st2) \<Rightarrow> e = AssertionError EdgeCountMismatch
         | Inr r \<Rightarrow> False))"
  by code_simp

text \<open>
  C10, amended.  On a tree of nodes with ids in range and no encrypted edges yet, with an
  encryption function that accepts the output of the PRF as a key, in which the children at
  the indices \<open>i \<noteq> j\<close> of a reachable parent \<open>p\<close> have equal ids:
  \<^verbatim>\<open>DHKA.keygen\<close> completes without error, the two children
  (two different objects) get the same label, secret, encryption key and private key, the
  edge keys of the two edges are equal, and the two stored entries are edge ciphertexts
  under that key.
\<close>

theorem equal_sibling_ids_derive_equal_keys:
  assumes "enc_accepts_prf self" and "is_tree st (root self)"
    and "ids_in_range st (root self)" and "no_encrypted_edges st (root self)"
    and "p \<in> reachable st (root self)"
    and "i < length (edges (st ! p))" and "j < length (edges (st ! p))" and "i \<noteq> j"
    and "node_id (st ! (edges (st ! p) ! i)) = node_id (st ! (edges (st ! p) ! j))"
  shows "\<exists>st' rnd'. DHKA_keygen self seed (st, rnd) = Inr (st', rnd') \<and>
           edges (st' ! p) = edges (st ! p) \<and>
           edges (st ! p) ! i \<noteq> edges (st ! p) ! j \<and>
           label (st' ! (edges (st ! p) ! i)) = label (st' ! (edges (st ! p) ! j)) \<and>
           secret (st' ! (edges (st ! p) ! i)) = secret (st' ! (edges (st ! p) ! j)) \<and>
           encryption_key (st' ! (edges (st ! p) ! i)) = encryption_key (st' ! (edges (st ! p) ! j)) \<and>
           key (st' ! (edges (st ! p) ! i)) = key (st' ! (edges (st ! p) ! j)) \<and>
           (\<exists>pek. encryption_key (st' ! p) = Some pek \<and>
              spec_edge_key (prf_f self) pek (node_id (st' ! (edges (st ! p) ! i))) =
              spec_edge_key (prf_f self) pek (node_id (st' ! (edges (st ! p) ! j)))) \<and>
           edge_cipher self (st' ! p) (st' ! (edges (st ! p) ! i)) (encrypted_edges (st' ! p) ! i) \<and>
           edge_cipher self (st' ! p) (st' ! (edges (st ! p) ! j)) (encrypted_edges (st' ! p) ! j)"
proof -
  let ?vi = "edges (st ! p) ! i" and ?vj = "edges (st ! p) ! j"
  from DHKA_keygen_succeeds[OF assms(1-4), of seed rnd] obtain st' rnd' where
    r: "DHKA_keygen self seed (st, rnd) = Inr (st', rnd')" by blast
  note post = DHKA_keygen_post[OF assms(2) r]
  have pl: "p < length st" by (rule is_tree_in_heap[OF assms(2,5)])
  have e: "edges (st' ! p) = edges (st ! p)" using post(1) pl by (simp add: same_shape_def)
  have d: "distinct (edges (st ! p))" using assms(2,5) by (simp add: is_tree_def)
  have ne: "?vi \<noteq> ?vj" using d assms(6-8) by (simp add: nth_eq_iff_index_eq)
  have vl: "?vi < length st" "?vj < length st"
    using assms(2,5,6,7) unfolding is_tree_def by (meson nth_mem)+
  have ids: "node_id (st' ! ?vi) = node_id (st' ! ?vj)"
    using post(1) vl assms(9) by (simp add: same_shape_def)
  from post(2) assms(5) have ok: "node_ok self st' p" by (simp add: keys_inv_def)
  from ok assms(6) e obtain ps where ps: "secret (st' ! p) = Some ps" "derived self ps (st' ! ?vi)"
    unfolding node_ok_def by auto
  from ok assms(7) e ps(1) have dj: "derived self ps (st' ! ?vj)"
    unfolding node_ok_def by auto
  have k: "keys_of (st' ! ?vi) = keys_of (st' ! ?vj)"
    by (rule derived_keys[OF dj ps(2) ids])
  from ok assms(6,7) e have c:
    "edge_cipher self (st' ! p) (st' ! ?vi) (encrypted_edges (st' ! p) ! i)"
    "edge_cipher self (st' ! p) (st' ! ?vj) (encrypted_edges (st' ! p) ! j)"
    unfolding node_ok_def by auto
  from c(1) obtain pek where pek: "encryption_key (st' ! p) = Some pek"
    unfolding edge_cipher_def by blast
  show ?thesis
    using r e ne k ids pek c by (auto simp: keys_of_def)
qed

theorem equal_sibling_ids_derive_equal_keys_witness:
  "enc_accepts_prf (toy_dhka 0) \<and> is_tree twins 0 \<and> ids_in_range twins 0 \<and>
   no_encrypted_edges twins 0 \<and> 0 \<in> reachable twins 0 \<and>
   node_id (twins ! 1) = node_id (twins ! 2) \<and>
   (\<exists>st' rnd'. DHKA_keygen (toy_dhka 0) toy_seed (twins, zeros) = Inr (st', rnd') \<and>
      secret (st' ! 1) = secret (st' ! 2) \<and> key (st' ! 1) = key (st' ! 2) \<and>
      edge_cipher (toy_dhka 0) (st' ! 0) (st' ! 1) (encrypted_edges (st' ! 0) ! 0) \<and>
      edge_cipher (toy_dhka 0) (st' ! 0) (st' ! 2) (encrypted_edges (st' ! 0) ! 1))"
proof -
  have rt: "root (toy_dhka 0) = 0" by (simp add: toy_dhka_def)
  have t: "is_tree twins (root (toy_dhka 0))"
    unfolding rt by (rule tree_check_is_tree[OF twins_check])
  have i: "ids_in_range twins (root (toy_dhka 0))"
    unfolding rt by (rule tree_check_ids_in_range[OF twins_check]) (simp add: twins_def bare_def)
  have n: "no_encrypted_edges twins (root (toy_dhka 0))"
    unfolding rt by (rule tree_check_no_encrypted_edges[OF twins_check]) (simp add: twins_def bare_def)
  have z: "0 \<in> reachable twins (root (toy_dhka 0))"
    unfolding rt by (rule reachable_root)
  have e: "edges (twins ! 0) ! 0 = 1" "edges (twins ! 0) ! 1 = 2"
    "0 < length (edges (twins ! 0))" "1 < length (edges (twins ! 0))"
    "node_id (twins ! 1) = node_id (twins ! 2)"
    by (simp_all add: twins_def bare_def)
  have ids: "node_id (twins ! (edges (twins ! 0) ! 0)) = node_id (twins ! (edges (twins ! 0) ! 1))"
    by (simp add: twins_def bare_def)
  from equal_sibling_ids_derive_equal_keys[OF toy_accepts t i n z e(3,4) _ ids, of toy_seed zeros]
  obtain st' rnd' where "DHKA_keygen (toy_dhka 0) toy_seed (twins, zeros) = Inr (st', rnd')"
      "secret (st' ! 1) = secret (st' ! 2)" "key (st' ! 1) = key (st' ! 2)"
      "edge_cipher (toy_dhka 0) (st' ! 0) (st' ! 1) (encrypted_edges (st' ! 0) ! 0)"
      "edge_cipher (toy_dhka 0) (st' ! 0) (st' ! 2) (encrypted_edges (st' ! 0) ! 1)"
    unfolding e(1,2) by auto
  with toy_accepts t i n z e(5) show ?thesis unfolding rt by blast
qed

section \<open>The seed length in the plain derivation (C9)\<close>

text \<open>
  C9, as stated, fails: \<^verbatim>\<open>DHKA.keygen\<close> has no check of the seed's length.  With a seed of
  64 bytes on a single root (the call of the repository's test \<^verbatim>\<open>test_root\<close>) it returns.
\<close>

theorem keygen_accepts_64_byte_seed:
  "length seed64 \<noteq> 32 \<and> \<not> isl (DHKA_keygen (toy_dhka 0) seed64 ([bare 0 []], zeros))"
  by code_simp

text \<open>
  C9, amended.  \<^verbatim>\<open>DHKA.keygen\<close> takes a seed of any length: on a well-formed tree it
  completes for every seed and derives the root's tuple from it.
\<close>

theorem keygen_any_seed_length:
  assumes "enc_accepts_prf self" and "is_tree st (root self)"
    and "ids_in_range st (root self)" and "no_encrypted_edges st (root self)"
  shows "\<exists>st' rnd'. DHKA_keygen self seed (st, rnd) = Inr (st', rnd') \<and>
           derived self seed (st' ! root self)"
proof -
  from DHKA_keygen_succeeds[OF assms, of seed rnd] obtain st' rnd' where
    r: "DHKA_keygen self seed (st, rnd) = Inr (st', rnd')" by blast
  from DHKA_keygen_post(2)[OF assms(2) r] have "derived self seed (st' ! root self)"
    by (simp add: keys_inv_def)
  with r show ?thesis by blast
qed

theorem keygen_any_seed_length_witness:
  "enc_accepts_prf (toy_dhka 0) \<and> is_tree twins 0 \<and> ids_in_range twins 0 \<and>
   no_encrypted_edges twins 0 \<and> length seed64 = 64 \<and>
   (\<exists>st' rnd'. DHKA_keygen (toy_dhka 0) seed64 (twins, zeros) = Inr (st', rnd') \<and>
      derived (toy_dhka 0) seed64 (st' ! 0))"
proof -
  have rt: "root (toy_dhka 0) = 0" by (simp add: toy_dhka_def)
  have t: "is_tree twins (root (toy_dhka 0))"
    unfolding rt by (rule tree_check_is_tree[OF twins_check])
  have i: "ids_in_range twins (root (toy_dhka 0))"
    unfolding rt by (rule tree_check_ids_in_range[OF twins_check]) (simp add: twins_def bare_def)
  have n: "no_encrypted_edges twins (root (toy_dhka 0))"
    unfolding rt by (rule tree_check_no_encrypted_edges[OF twins_check]) (simp add: twins_def bare_def)
  have l: "length seed64 = 64" by (simp add: seed64_def)
  from keygen_any_seed_length[OF toy_accepts t i n, of seed64 zeros] toy_accepts t i n l
  show ?thesis unfolding rt by blast
qed

section \<open>A node shared by two parents (C2)\<close>

text \<open>
  C2: the code at a failing input.  The leaf 3 is a child of the two reachable nodes 1 and 2,
  and \<^verbatim>\<open>DHKA.keygen\<close> returns without an error: the second parent finds the leaf in the
  queue but not yet in \<open>visited\<close>, and derives it again.  The heap it leaves looks complete
  (every node has a secret and as many encrypted edges as edges), but the entry stored at
  node 1 no longer decrypts to the keys of the leaf.
\<close>

theorem shared_child_goes_undetected:
  "3 \<in> set (edges (diamond ! 1)) \<and> 3 \<in> set (edges (diamond ! 2)) \<and>
   1 \<in> reachable diamond 0 \<and> 2 \<in> reachable diamond 0 \<and>
   (case DHKA_keygen (toy_dhka 0) toy_seed (diamond, zeros) of
      Inl e \<Rightarrow> False
    | Inr (st', rnd') \<Rightarrow>
        list_all (\<lambda>n. secret n \<noteq> None \<and> length (encrypted_edges n) = length (edges n)) st' \<and>
        aes_ad toy_gcm (spec_edge_key toy_prf (the (encryption_key (st' ! 1))) (node_id (st' ! 3)))
            (encrypted_edges (st' ! 1) ! 0)
          \<noteq> Inr (the (encryption_key (st' ! 3)) @ the (key (st' ! 3))))"
proof -
  have r: "1 \<in> reachable diamond 0" "2 \<in> reachable diamond 0"
    using reachable_step[OF reachable_root, of 0 diamond 1]
      reachable_step[OF reachable_root, of 0 diamond 2]
    by (simp_all add: diamond_def bare_def)
  have e: "3 \<in> set (edges (diamond ! 1))" "3 \<in> set (edges (diamond ! 2))"
    by (simp_all add: diamond_def bare_def)
  have c: "case DHKA_keygen (toy_dhka 0) toy_seed (diamond, zeros) of
      Inl e \<Rightarrow> False
    | Inr (st', rnd') \<Rightarrow>
        list_all (\<lambda>n. secret n \<noteq> None \<and> length (encrypted_edges n) = length (edges n)) st' \<and>
        aes_ad toy_gcm (spec_edge_key toy_prf (the (encryption_key (st' ! 1))) (node_id (st' ! 3)))
            (encrypted_edges (st' ! 1) ! 0)
          \<noteq> Inr (the (encryption_key (st' ! 3)) @ the (key (st' ! 3)))"
    by code_simp
  from r e c show ?thesis by blast
qed

section \<open>What the shared child does to the derivation rules (C1, C5, C8)\<close>

text \<open>
  The run of \<^verbatim>\<open>DHKA.keygen\<close> on the hierarchy in which the leaf 3 is the one child of
  both node 1 and node 2: it returns, and the leaf, written twice, keeps what the second
  parent gave it.
\<close>

lemma diamond_run:
  "case DHKA_keygen (toy_dhka 0) toy_seed (diamond, zeros) of
      Inl e \<Rightarrow> False
    | Inr (st', rnd') \<Rightarrow>
        edges (st' ! 1) = [3] \<and>
        length (encrypted_edges (st' ! 1)) = length (edges (st' ! 1)) \<and>
        \<not> derived (toy_dhka 0) (the (secret (st' ! 1))) (st' ! 3) \<and>
        derived (toy_dhka 0) (the (secret (st' ! 2))) (st' ! 3) \<and>
        dec_f (toy_dhka 0)
            (spec_edge_key (prf_f (toy_dhka 0)) (the (encryption_key (st' ! 1))) (node_id (st' ! 3)))
            (encrypted_edges (st' ! 1) ! 0)
          = Inr (spec_encryption_key toy_prf (spec_secret toy_prf (the (secret (st' ! 1))) 3) 3 @
                 spec_private_key toy_prf (spec_secret toy_prf (the (secret (st' ! 1))) 3) 3) \<and>
        spec_encryption_key toy_prf (spec_secret toy_prf (the (secret (st' ! 1))) 3) 3 @
            spec_private_key toy_prf (spec_secret toy_prf (the (secret (st' ! 1))) 3) 3
          \<noteq> the (encryption_key (st' ! 3)) @ the (key (st' ! 3))"
  by code_simp

lemma diamond_parents:
  "1 \<in> reachable diamond 0" "2 \<in> reachable diamond 0"
  "edges (diamond ! 1) = [3]" "edges (diamond ! 2) = [3]"
  using reachable_step[OF reachable_root, of 0 diamond 1]
    reachable_step[OF reachable_root, of 0 diamond 2]
  by (simp_all add: diamond_def bare_def)

text \<open>
  C1: the code at a failing input.  Node 1 is a reachable parent of the leaf 3, and after
  \<^verbatim>\<open>DHKA.keygen\<close> has returned the leaf does not carry the tuple the rules derive from the
  secret of node 1: its secret, encryption key and private key are those derived from the
  secret of node 2, the parent that wrote it last.
\<close>

theorem shared_child_not_derived_from_first_parent:
  "1 \<in> reachable diamond 0 \<and> edges (diamond ! 1) = [3] \<and> edges (diamond ! 2) = [3] \<and>
   (case DHKA_keygen (toy_dhka 0) toy_seed (diamond, zeros) of
      Inl e \<Rightarrow> False
    | Inr (st', rnd') \<Rightarrow>
        \<not> derived (toy_dhka 0) (the (secret (st' ! 1))) (st' ! 3) \<and>
        derived (toy_dhka 0) (the (secret (st' ! 2))) (st' ! 3))"
  using diamond_run diamond_parents by (auto split: sum.splits)

text \<open>
  C5: the code at a failing input.  After \<^verbatim>\<open>DHKA.keygen\<close> has returned, decrypting the
  entry stored for the edge from node 1 to the leaf 3 under the edge key of that edge
  returns the keys the leaf was given from node 1, which are not the encryption key and
  private key the leaf holds.
\<close>

theorem stale_edge_of_shared_child:
  "1 \<in> reachable diamond 0 \<and>
   (case DHKA_keygen (toy_dhka 0) toy_seed (diamond, zeros) of
      Inl e \<Rightarrow> False
    | Inr (st', rnd') \<Rightarrow>
        edges (st' ! 1) ! 0 = 3 \<and>
        dec_f (toy_dhka 0)
            (spec_edge_key (prf_f (toy_dhka 0)) (the (encryption_key (st' ! 1))) (node_id (st' ! 3)))
            (encrypted_edges (st' ! 1) ! 0)
          = Inr (spec_encryption_key toy_prf (spec_secret toy_prf (the (secret (st' ! 1))) 3) 3 @
                 spec_private_key toy_prf (spec_secret toy_prf (the (secret (st' ! 1))) 3) 3) \<and>
        dec_f (toy_dhka 0)
            (spec_edge_key (prf_f (toy_dhka 0)) (the (encryption_key (st' ! 1))) (node_id (st' ! 3)))
            (encrypted_edges (st' ! 1) ! 0)
          \<noteq> Inr (the (encryption_key (st' ! 3)) @ the (key (st' ! 3))))"
  using diamond_run diamond_parents(1) by (auto split: sum.splits)

text \<open>
  C8: the code at a failing input.  After \<^verbatim>\<open>DHKA.keygen\<close> has returned, node 1 has as
  many encrypted edges as edges, but its entry at index 0 is not an edge ciphertext for its
  child at index 0, the leaf 3: no run of the encryption function under the edge key on the
  leaf's encryption key and private key gives that entry.
\<close>

theorem entry_of_shared_child_not_paired:
  "1 \<in> reachable diamond 0 \<and>
   (case DHKA_keygen (toy_dhka 0) toy_seed (diamond, zeros) of
      Inl e \<Rightarrow> False
    | Inr (st', rnd') \<Rightarrow>
        length (encrypted_edges (st' ! 1)) = length (edges (st' ! 1)) \<and>
        edges (st' ! 1) ! 0 = 3 \<and>
        \<not> edge_cipher (toy_dhka 0) (st' ! 1) (st' ! 3) (encrypted_edges (st' ! 1) ! 0))"
proof -
  from diamond_run obtain st' rnd' where
    r: "DHKA_keygen (toy_dhka 0) toy_seed (diamond, zeros) = Inr (st', rnd')"
    and e: "edges (st' ! 1) = [3]"
    and l: "length (encrypted_edges (st' ! 1)) = length (edges (st' ! 1))"
    and d: "dec_f (toy_dhka 0)
            (spec_edge_key (prf_f (toy_dhka 0)) (the (encryption_key (st' ! 1))) (node_id (st' ! 3)))
            (encrypted_edges (st' ! 1) ! 0)
          = Inr (spec_encryption_key toy_prf (spec_secret toy_prf (the (secret (st' ! 1))) 3) 3 @
                 spec_private_key toy_prf (spec_secret toy_prf (the (secret (st' ! 1))) 3) 3)"
    and n: "spec_encryption_key toy_prf (spec_secret toy_prf (the (secret (st' ! 1))) 3) 3 @
            spec_private_key toy_prf (spec_secret toy_prf (the (secret (st' ! 1))) 3) 3
          \<noteq> the (encryption_key (st' ! 3)) @ the (key (st' ! 3))"
    by (auto split: sum.splits)
  have f: "enc_f (toy_dhka 0) = aes_ae toy_gcm" "dec_f (toy_dhka 0) = aes_ad toy_gcm"
    by (simp_all add: toy_dhka_def)
  have "\<not> edge_cipher (toy_dhka 0) (st' ! 1) (st' ! 3) (encrypted_edges (st' ! 1) ! 0)"
  proof
    assume "edge_cipher (toy_dhka 0) (st' ! 1) (st' ! 3) (encrypted_edges (st' ! 1) ! 0)"
    then obtain pek t k rn rn' where
      k: "encryption_key (st' ! 1) = Some pek" "encryption_key (st' ! 3) = Some t"
        "key (st' ! 3) = Some k"
      and c: "aes_ae toy_gcm rn (spec_edge_key (prf_f (toy_dhka 0)) pek (node_id (st' ! 3))) (t @ k)
                = Inr (encrypted_edges (st' ! 1) ! 0, rn')"
      unfolding edge_cipher_def f by blast
    from aes_roundtrip[OF toy_gcm_correct c] d n k show False
      by (simp add: f)
  qed
  with r e l diamond_parents(1) show ?thesis by simp
qed

section \<open>The certificate layer: seed split and cold storage key (C7)\<close>

lemma Arcula_keygen_node_only_at:
  "Arcula_keygen_node self cold u (st, rnd) = Inr (st', rnd') \<Longrightarrow> only_at u st st'"
  by (auto simp: Arcula_keygen_node_def only_at_def Let_def nth_update_if DHKANode.truncate_def
           split: if_splits sum.splits prod.splits option.splits)

lemma Arcula_keygen_node_fail_only_at:
  "Arcula_keygen_node self cold u (st, rnd) = Inl (e, st') \<Longrightarrow> only_at u st st'"
  by (auto simp: Arcula_keygen_node_def only_at_def Let_def nth_update_if DHKANode.truncate_def
           split: if_splits sum.splits prod.splits option.splits)

lemma same_dhka_refl: "same_dhka st st"
  by (simp add: same_dhka_def)

lemma same_dhka_trans: "same_dhka st st1 \<Longrightarrow> same_dhka st1 st2 \<Longrightarrow> same_dhka st st2"
  by (simp add: same_dhka_def)

lemma only_at_same_dhka: "only_at u st st' \<Longrightarrow> same_dhka st st'"
  by (simp add: only_at_def same_dhka_def)

lemma Arcula_keygen_loop_same_dhka:
  "Arcula_keygen_loop self cold (st, q, visited, rnd) = Inr (st', rnd') \<Longrightarrow> same_dhka st st'"
proof (induction self cold "(st, q, visited, rnd)" arbitrary: st q visited rnd
         rule: Arcula_keygen_loop.induct)
  case (1 self cold st visited rnd)
  then show ?case by (simp add: same_dhka_refl)
next
  case (2 self cold st u q visited rnd)
  from "2.prems" have ul: "u < length st" by (auto split: if_splits)
  from "2.prems" ul obtain st1 rnd1 where
    n: "Arcula_keygen_node self cold u (st, rnd) = Inr (st1, rnd1)"
    and rest: "Arcula_keygen_loop self cold
               (st1, q @ filter (\<lambda>v. v \<notin> insert u visited) (edges (st1 ! u)), insert u visited, rnd1)
                = Inr (st', rnd')"
    by (auto split: sum.splits)
  have nn: "\<not> \<not> u < length st" using ul by simp
  from "2.hyps"[OF nn n refl rest] only_at_same_dhka[OF Arcula_keygen_node_only_at[OF n]]
  show ?case by (rule same_dhka_trans[rotated])
qed

text \<open>
  C7.  \<^verbatim>\<open>Arcula.keygen\<close> fails on a seed that is not 64 bytes long, before touching the heap.
  On a 64-byte seed it runs the derivation engine with the first 32 bytes (a failure of that
  run is its failure; when it returns, the derivation fields are those of that run), and the
  cold storage key is the seeded EC key generation applied to the last 32 bytes, a function
  of those bytes and the curve alone, whose public key is stored in the wallet.
\<close>

theorem Arcula_keygen_seed_split:
  "(length seed \<noteq> 64 \<longrightarrow>
      Arcula_keygen self seed (st, rnd) = Inl (AssertionError SeedLength, st)) \<and>
   (length seed = 64 \<longrightarrow>
      (\<forall>e. DHKA_keygen self (take 32 seed) (st, rnd) = Inl e \<longrightarrow>
           Arcula_keygen self seed (st, rnd) = Inl e)) \<and>
   (\<forall>w st' rnd'. Arcula_keygen self seed (st, rnd) = Inr (w, st', rnd') \<longrightarrow>
      length seed = 64 \<and>
      (\<exists>st1 rnd1. DHKA_keygen self (take 32 seed) (st, rnd) = Inr (st1, rnd1) \<and>
         same_dhka st1 st') \<and>
      ecdsa_keygen (Some (drop 32 seed)) (curve self) =
        Inr (from_secret_exponent (curve self)
               (randrange_from_seed__trytryagain (curve self) (drop 32 seed))) \<and>
      w = self\<lparr>cold_storage_public_key :=
                 Some (get_verifying_key
                         (from_secret_exponent (curve self)
                            (randrange_from_seed__trytryagain (curve self) (drop 32 seed))))\<rparr>)"
proof (intro conjI impI allI)
  assume "length seed \<noteq> 64"
  then show "Arcula_keygen self seed (st, rnd) = Inl (AssertionError SeedLength, st)"
    by (simp add: Arcula_keygen_def)
next
  fix e assume "length seed = 64" "DHKA_keygen self (take 32 seed) (st, rnd) = Inl e"
  then show "Arcula_keygen self seed (st, rnd) = Inl e"
    by (simp add: Arcula_keygen_def)
next
  fix w st' rnd'
  assume r: "Arcula_keygen self seed (st, rnd) = Inr (w, st', rnd')"
  then show l: "length seed = 64" by (auto simp: Arcula_keygen_def split: if_splits)
  then have c: "ecdsa_keygen (Some (drop 32 seed)) (curve self) =
        Inr (from_secret_exponent (curve self)
               (randrange_from_seed__trytryagain (curve self) (drop 32 seed)))"
    by (simp add: ecdsa_keygen_def)
  then show "ecdsa_keygen (Some (drop 32 seed)) (curve self) =
        Inr (from_secret_exponent (curve self)
               (randrange_from_seed__trytryagain (curve self) (drop 32 seed)))" .
  from r l c obtain st1 rnd1 where
    d: "DHKA_keygen self (take 32 seed) (st, rnd) = Inr (st1, rnd1)"
    and w: "w = self\<lparr>cold_storage_public_key :=
                 Some (get_verifying_key
                         (from_secret_exponent (curve self)
                            (randrange_from_seed__trytryagain (curve self) (drop 32 seed))))\<rparr>"
    and lp: "Arcula_keygen_loop w (from_secret_exponent (curve self)
                            (randrange_from_seed__trytryagain (curve self) (drop 32 seed)))
               (st1, [root w], {}, rnd1) = Inr (st', rnd')"
    by (auto simp: Arcula_keygen_def cold_storage_keys_def Let_def
          simp del: Arcula_keygen_loop.simps split: sum.splits)
  from w show "w = self\<lparr>cold_storage_public_key :=
                 Some (get_verifying_key
                         (from_secret_exponent (curve self)
                            (randrange_from_seed__trytryagain (curve self) (drop 32 seed))))\<rparr>" .
  from d Arcula_keygen_loop_same_dhka[OF lp]
  show "\<exists>st1 rnd1. DHKA_keygen self (take 32 seed) (st, rnd) = Inr (st1, rnd1) \<and> same_dhka st1 st'"
    by blast
qed

section \<open>Certificates (C6)\<close>

lemma length_to_bytes_big: "length (to_bytes_big n k) = n"
  by (induction n arbitrary: k) simp_all

lemma length_compressed: "length (compressed pk) = 33"
  by (simp add: compressed_def length_to_bytes_big)

lemma verification_key_to_bytes_33_Inr:
  "verification_key_to_bytes_33 pk = Inr b \<Longrightarrow> b = compressed pk"
  by (auto simp: verification_key_to_bytes_33_def int_to_bytes_32_def compressed_def
      split: if_splits)

lemma create_certificate_Inr:
  "create_certificate crv rnd cold pk i = Inr ((sg, m), rnd') \<Longrightarrow>
     m = (compressed pk, be64 i) \<and> ecdsa_sign crv rnd cold (compressed pk @ be64 i) = (sg, rnd')"
  by (auto simp: create_certificate_def int_to_bytes_8_def be64_def
      dest!: verification_key_to_bytes_33_Inr split: sum.splits if_splits prod.splits)

lemma Arcula_keygen_node_certified:
  assumes n: "Arcula_keygen_node self cold u (st, rnd) = Inr (st', rnd')" and u: "u < length st"
  shows "certified (curve self) cold (st' ! u)"
    and "distinct (map (\<lambda>e. node_id (st ! e)) (edges (st ! u)))"
    and "\<forall>e \<in> set (edges (st ! u)). e < length st"
proof -
  from n obtain sk where sk: "ecdsa_keygen (key (st ! u)) (curve self) = Inr sk"
    by (auto simp: Arcula_keygen_node_def split: sum.splits)
  define st1 where "st1 = st[u := (st ! u)\<lparr>signing_key := Some sk\<rparr>]"
  have s1: "signing_key (st1 ! u) = Some sk" "node_id (st1 ! u) = node_id (st ! u)"
    using u by (simp_all add: st1_def)
  from n sk s1 obtain cert where
    c: "create_certificate (curve self) rnd cold (get_verifying_key sk) (node_id (st ! u)) = Inr (cert, rnd')"
    and st': "st' = st1[u := (st1 ! u)\<lparr>certificate := Some cert\<rparr>]"
    and a: "card (set (map (\<lambda>e. node_id (st' ! e)) (edges (st' ! u)))) = length (edges (st' ! u))"
    and b: "\<forall>e \<in> set (edges (st' ! u)). e < length st'"
    by (auto simp: Arcula_keygen_node_def Let_def st1_def[symmetric]
        split: sum.splits if_splits prod.splits)
  obtain sg m where cert: "cert = (sg, m)" by (cases cert)
  note cc = create_certificate_Inr[OF c[unfolded cert]]
  have f: "st' ! u = (st ! u)\<lparr>signing_key := Some sk, certificate := Some cert\<rparr>"
    using u by (simp add: st' st1_def)
  show "certified (curve self) cold (st' ! u)"
    unfolding certified_def using sk cc by (auto simp: f cert)
  have e: "edges (st' ! u) = edges (st ! u)" by (simp add: f)
  have "map (\<lambda>e. node_id (st' ! e)) (edges (st ! u)) = map (\<lambda>e. node_id (st ! e)) (edges (st ! u))"
    by (rule map_cong) (auto simp: st' st1_def nth_update_if)
  with a e have "card (set (map (\<lambda>e. node_id (st ! e)) (edges (st ! u))))
     = length (map (\<lambda>e. node_id (st ! e)) (edges (st ! u)))" by simp
  then show "distinct (map (\<lambda>e. node_id (st ! e)) (edges (st ! u)))"
    by (rule card_distinct)
  have "length st' = length st" by (simp add: st' st1_def)
  with b e show "\<forall>e \<in> set (edges (st ! u)). e < length st"
    by simp
qed

lemma same_dhka_fields:
  "same_dhka st st' \<Longrightarrow> a < length st \<Longrightarrow>
     edges (st' ! a) = edges (st ! a) \<and> node_id (st' ! a) = node_id (st ! a) \<and>
     key (st' ! a) = key (st ! a) \<and> encrypted_edges (st' ! a) = encrypted_edges (st ! a) \<and>
     keys_of (st' ! a) = keys_of (st ! a)"
proof -
  assume "same_dhka st st'" "a < length st"
  then have "DHKANode.truncate (st' ! a) = DHKANode.truncate (st ! a)"
    by (simp add: same_dhka_def)
  then show ?thesis
    by (auto simp: DHKANode.truncate_def keys_of_def)
qed

lemma same_dhka_same_shape: "same_dhka st st' \<Longrightarrow> same_shape st st'"
  using same_dhka_fields[of st st'] by (simp add: same_shape_def same_dhka_def)

lemma certified_cong:
  "st' ! p = st ! p \<Longrightarrow> certified crv cold (st ! p) \<Longrightarrow> certified crv cold (st' ! p)"
  by simp

lemma Arcula_keygen_loop_cert_inv:
  "Arcula_keygen_loop self cold (st, q, visited, rnd) = Inr (st', rnd') \<Longrightarrow>
   cert_inv (curve self) cold st visited (set q) \<Longrightarrow>
     \<exists>V. visited \<union> set q \<subseteq> V \<and> cert_inv (curve self) cold st' V {}"
proof (induction self cold "(st, q, visited, rnd)" arbitrary: st q visited rnd
         rule: Arcula_keygen_loop.induct)
  case (1 self cold st visited rnd)
  then show ?case by auto
next
  case (2 self cold st u q visited rnd)
  from "2.prems"(1) have ul: "u < length st" by (auto split: if_splits)
  let ?q1 = "q @ filter (\<lambda>v. v \<notin> insert u visited) (edges (st ! u))"
  from "2.prems"(1) ul obtain st1 rnd1 where
    n: "Arcula_keygen_node self cold u (st, rnd) = Inr (st1, rnd1)"
    and rest0: "Arcula_keygen_loop self cold
               (st1, q @ filter (\<lambda>v. v \<notin> insert u visited) (edges (st1 ! u)), insert u visited, rnd1)
                = Inr (st', rnd')"
    by (auto split: sum.splits)
  note oa = Arcula_keygen_node_only_at[OF n]
  have sd: "same_dhka st st1" by (rule only_at_same_dhka[OF oa])
  have len: "length st1 = length st" using oa by (simp add: only_at_def)
  have eu: "edges (st1 ! u) = edges (st ! u)" using same_dhka_fields[OF sd ul] by simp
  have ids: "node_id (st1 ! a) = node_id (st ! a)" if "a < length st" for a
    using same_dhka_fields[OF sd that] by simp
  have eds: "edges (st1 ! a) = edges (st ! a)" if "a < length st" for a
    using same_dhka_fields[OF sd that] by simp
  have idmap: "map (\<lambda>e. node_id (st1 ! e)) es = map (\<lambda>e. node_id (st ! e)) es"
    if "\<forall>e \<in> set es. e < length st" for es
    by (rule map_cong) (use that ids in auto)
  have c1: "cert_inv (curve self) cold st1 (insert u visited) (set ?q1)"
    unfolding cert_inv_def
  proof
    fix p assume p: "p \<in> insert u visited"
    show "p < length st1 \<and> certified (curve self) cold (st1 ! p) \<and>
        distinct (map (\<lambda>e. node_id (st1 ! e)) (edges (st1 ! p))) \<and>
        (\<forall>e \<in> set (edges (st1 ! p)). e < length st1) \<and>
        set (edges (st1 ! p)) \<subseteq> insert u visited \<union> set ?q1"
    proof (cases "p = u")
      case True
      note k = Arcula_keygen_node_certified[OF n ul]
      have "p < length st1" using True ul len by simp
      moreover have "certified (curve self) cold (st1 ! p)" using k(1) True by simp
      moreover have "distinct (map (\<lambda>e. node_id (st1 ! e)) (edges (st1 ! p)))"
        unfolding True eu idmap[OF k(3)] by (rule k(2))
      moreover have "\<forall>e \<in> set (edges (st1 ! p)). e < length st1"
        using k(3) True eu len by simp
      moreover have "set (edges (st1 ! p)) \<subseteq> insert u visited \<union> set ?q1"
        using True eu by auto
      ultimately show ?thesis by blast
    next
      case False
      with p have pv: "p \<in> visited" by simp
      with "2.prems"(2) have pp: "p < length st" "certified (curve self) cold (st ! p)"
        "distinct (map (\<lambda>e. node_id (st ! e)) (edges (st ! p)))"
        "\<forall>e \<in> set (edges (st ! p)). e < length st"
        "set (edges (st ! p)) \<subseteq> visited \<union> set (u # q)"
        by (simp_all add: cert_inv_def)
      have same: "st1 ! p = st ! p" using oa False pp(1) by (simp add: only_at_def)
      have "p < length st1" using pp(1) len by simp
      moreover have "certified (curve self) cold (st1 ! p)" using pp(2) same by simp
      moreover have "distinct (map (\<lambda>e. node_id (st1 ! e)) (edges (st1 ! p)))"
        unfolding same idmap[OF pp(4)] by (rule pp(3))
      moreover have "\<forall>e \<in> set (edges (st1 ! p)). e < length st1"
        using pp(4) same len by simp
      moreover have "set (edges (st1 ! p)) \<subseteq> insert u visited \<union> set ?q1"
        using pp(5) same by auto
      ultimately show ?thesis by blast
    qed
  qed
  have nn: "\<not> \<not> u < length st" using ul by simp
  from "2.hyps"[OF nn n refl rest0] c1 eu
  obtain V where "insert u visited \<union> set ?q1 \<subseteq> V" "cert_inv (curve self) cold st' V {}"
    by auto
  then show ?case by auto
qed

lemma DHKA_keygen_same_shape:
  assumes k: "DHKA_keygen self seed (st, rnd) = Inr (st', rnd')"
  shows "same_shape st st'"
proof -
  let ?r = "root self"
  from k have rl: "?r < length st" by (auto simp: DHKA_keygen_def split: if_splits)
  from k rl obtain l s t' k' where
    d: "label_secret_encryption_key_from_parent self (Some seed) (node_id (st ! ?r)) = Inr (l, s, t', k')"
    by (auto simp: DHKA_keygen_def split: sum.splits)
  define st0 where "st0 = st[?r := (st ! ?r)\<lparr>key := Some k', label := Some l,
                                                 secret := Some s, encryption_key := Some t'\<rparr>]"
  from k rl d have loop: "keygen_loop self (st0, [?r], {}, rnd) = Inr (st', rnd')"
    by (simp add: DHKA_keygen_def st0_def)
  have sh: "same_shape st st0"
    by (simp add: same_shape_def st0_def nth_update_if)
  from keygen_loop_filled[OF loop] have "same_shape st0 st'"
    by (simp add: filled_def)
  with sh show ?thesis by (rule same_shape_trans)
qed

text \<open>
  C6.  After \<^verbatim>\<open>Arcula.keygen\<close> has returned, with a curve whose signatures verify: every
  reachable node holds the signing key generated from its private key and the certificate
  \<open>(signature, (compressed public key, be64 id))\<close>; the compressed key is 33 bytes long
  (parity byte 0x02 or 0x03, then 32 bytes), and the signature verifies under the cold
  storage public key over the compressed key followed by the encoded id.
\<close>

theorem certificates_verify:
  assumes "Arcula_keygen self seed (st, rnd) = Inr (w, st', rnd')"
    and "signatures_verify (curve self)"
  shows "\<exists>cpk. cold_storage_public_key w = Some cpk \<and>
           (\<forall>v \<in> reachable st (root self).
              \<exists>sk sg. signing_key (st' ! v) = Some sk \<and>
                ecdsa_keygen (key (st' ! v)) (curve self) = Inr sk \<and>
                certificate (st' ! v) =
                  Some (sg, (compressed (get_verifying_key sk), be64 (node_id (st' ! v)))) \<and>
                length (compressed (get_verifying_key sk)) = 33 \<and>
                ec_verify (curve self) cpk sg
                  (compressed (get_verifying_key sk) @ be64 (node_id (st' ! v))))"
proof -
  define cold where "cold = from_secret_exponent (curve self)
                            (randrange_from_seed__trytryagain (curve self) (drop 32 seed))"
  from assms(1) have l: "length seed = 64" by (auto simp: Arcula_keygen_def split: if_splits)
  then have c: "cold_storage_keys self (drop 32 seed) = Inr cold"
    by (simp add: cold_storage_keys_def ecdsa_keygen_def cold_def)
  from assms(1) l c obtain st1 rnd1 where
    d: "DHKA_keygen self (take 32 seed) (st, rnd) = Inr (st1, rnd1)"
    and w: "w = self\<lparr>cold_storage_public_key := Some (get_verifying_key cold)\<rparr>"
    and lp: "Arcula_keygen_loop w cold (st1, [root w], {}, rnd1) = Inr (st', rnd')"
    by (auto simp: Arcula_keygen_def Let_def simp del: Arcula_keygen_loop.simps split: sum.splits)
  have cw: "curve w = curve self" "root w = root self" by (simp_all add: w)
  have "cert_inv (curve w) cold st1 {} (set [root w])" by (simp add: cert_inv_def)
  from Arcula_keygen_loop_cert_inv[OF lp this] obtain V where
    V: "root self \<in> V" "cert_inv (curve self) cold st' V {}"
    by (auto simp: cw)
  have s: "same_shape st st'"
    using DHKA_keygen_same_shape[OF d] same_dhka_same_shape[OF Arcula_keygen_loop_same_dhka[OF lp]]
    by (rule same_shape_trans)
  have "reachable st' (root self) \<subseteq> V"
    by (rule reachable_closed) (use V in \<open>auto simp: cert_inv_def\<close>)
  then have r: "reachable st (root self) \<subseteq> V" by (simp add: same_shape_reachable[OF s])
  have "\<exists>sk sg. signing_key (st' ! v) = Some sk \<and>
                ecdsa_keygen (key (st' ! v)) (curve self) = Inr sk \<and>
                certificate (st' ! v) =
                  Some (sg, (compressed (get_verifying_key sk), be64 (node_id (st' ! v)))) \<and>
                length (compressed (get_verifying_key sk)) = 33 \<and>
                ec_verify (curve self) (get_verifying_key cold) sg
                  (compressed (get_verifying_key sk) @ be64 (node_id (st' ! v)))"
    if "v \<in> reachable st (root self)" for v
  proof -
    from that r V(2) have "certified (curve self) cold (st' ! v)" by (auto simp: cert_inv_def)
    then obtain sk sg r1 r2 where
      k: "ecdsa_keygen (key (st' ! v)) (curve self) = Inr sk" "signing_key (st' ! v) = Some sk"
        "certificate (st' ! v) = Some (sg, (compressed (get_verifying_key sk), be64 (node_id (st' ! v))))"
        "ecdsa_sign (curve self) r1 cold (compressed (get_verifying_key sk) @ be64 (node_id (st' ! v))) = (sg, r2)"
      unfolding certified_def by blast
    from assms(2) have "ec_verify (curve self) (get_verifying_key cold)
        (fst (ec_sign (curve self) r1 cold (compressed (get_verifying_key sk) @ be64 (node_id (st' ! v)))))
        (compressed (get_verifying_key sk) @ be64 (node_id (st' ! v)))"
      unfolding signatures_verify_def cold_def by blast
    with k(4) have "ec_verify (curve self) (get_verifying_key cold) sg
        (compressed (get_verifying_key sk) @ be64 (node_id (st' ! v)))"
      by (simp add: ecdsa_sign_def)
    with k length_compressed show ?thesis by blast
  qed
  then show ?thesis by (auto simp: w)
qed

section \<open>Sibling ids in the certificate layer (C3)\<close>

lemma same_more_refl: "same_more st st"
  by (simp add: same_more_def)

lemma same_more_trans: "same_more st st1 \<Longrightarrow> same_more st1 st2 \<Longrightarrow> same_more st st2"
  by (simp add: same_more_def)

lemma keygen_edge_more:
  "keygen_edge self u vis v (st, q, rnd) = Inr (st', q', rnd') \<Longrightarrow> same_more st st'"
  by (auto simp: keygen_edge_def same_more_def Let_def nth_update_if
           split: if_splits sum.splits prod.splits)

lemma keygen_edges_more:
  "keygen_edges self u vis vs (st, q, rnd) = Inr (st', q', rnd') \<Longrightarrow> same_more st st'"
proof (induction vs arbitrary: st q rnd)
  case Nil
  then show ?case by (simp add: same_more_refl)
next
  case (Cons v vs)
  from Cons.prems obtain st1 q1 rnd1 where
    a: "keygen_edge self u vis v (st, q, rnd) = Inr (st1, q1, rnd1)" and
    b: "keygen_edges self u vis vs (st1, q1, rnd1) = Inr (st', q', rnd')"
    by (auto split: sum.splits)
  from keygen_edge_more[OF a] Cons.IH[OF b] show ?case by (rule same_more_trans)
qed

lemma keygen_loop_more:
  "keygen_loop self (st, q, visited, rnd) = Inr (st', rnd') \<Longrightarrow> same_more st st'"
proof (induction self "(st, q, visited, rnd)" arbitrary: st q visited rnd rule: keygen_loop.induct)
  case (1 self st visited rnd)
  then show ?case by (simp add: same_more_refl)
next
  case (2 self st u q visited rnd)
  from "2.prems"(1) have ul: "u < length st" by (auto split: if_splits)
  from "2.prems"(1) ul obtain st1 q1 rnd1 where
    e: "keygen_edges self u (insert u visited) (edges (st ! u)) (st, q, rnd) = Inr (st1, q1, rnd1)"
    and l: "length (encrypted_edges (st1 ! u)) = length (edges (st1 ! u))"
    and rest: "keygen_loop self (st1, q1, insert u visited, rnd1) = Inr (st', rnd')"
    by (auto split: sum.splits if_splits)
  have nn: "\<not> \<not> u < length st" using ul by simp
  from keygen_edges_more[OF e] "2.hyps"[OF nn e refl refl l rest]
  show ?case by (rule same_more_trans)
qed

lemma DHKA_keygen_more:
  assumes k: "DHKA_keygen self seed (st, rnd) = Inr (st', rnd')"
  shows "same_more st st'"
proof -
  let ?r = "root self"
  from k have rl: "?r < length st" by (auto simp: DHKA_keygen_def split: if_splits)
  from k rl obtain l s t' k' where
    d: "label_secret_encryption_key_from_parent self (Some seed) (node_id (st ! ?r)) = Inr (l, s, t', k')"
    by (auto simp: DHKA_keygen_def split: sum.splits)
  define st0 where "st0 = st[?r := (st ! ?r)\<lparr>key := Some k', label := Some l,
                                                 secret := Some s, encryption_key := Some t'\<rparr>]"
  from k rl d have loop: "keygen_loop self (st0, [?r], {}, rnd) = Inr (st', rnd')"
    by (simp add: DHKA_keygen_def st0_def)
  have "same_more st st0"
    by (simp add: same_more_def st0_def nth_update_if)
  then show ?thesis using keygen_loop_more[OF loop] by (rule same_more_trans)
qed

lemma twin_parent_shape:
  assumes s: "same_shape st st'" and t: "is_tree st r" and p: "p \<in> reachable st r"
  shows "twin_parent st' p = twin_parent st p"
proof -
  have pl: "p < length st" by (rule is_tree_in_heap[OF t p])
  have e: "edges (st' ! p) = edges (st ! p)" using s pl by (simp add: same_shape_def)
  have "\<forall>c \<in> set (edges (st ! p)). c < length st" using t p by (simp add: is_tree_def)
  then have m: "map (\<lambda>e. node_id (st' ! e)) (edges (st ! p)) = map (\<lambda>e. node_id (st ! e)) (edges (st ! p))"
    using s by (intro map_cong) (auto simp: same_shape_def)
  show ?thesis unfolding twin_parent_def e m by (rule refl)
qed

lemma twin_child_not_queued:
  assumes t: "is_tree st r" and b: "bfs_inv st r (u # q) visited"
    and n: "\<forall>p \<in> visited. \<not> twin_parent st p"
    and p: "p \<in> reachable st r" "twin_parent st p" and c: "c \<in> set (edges (st ! p))"
  shows "c \<noteq> u"
proof
  assume cu: "c = u"
  have "c \<noteq> r" using t p(1) c by (auto simp: is_tree_def)
  with b cu obtain p' where p': "p' \<in> visited" "u \<in> set (edges (st ! p'))"
    by (auto simp: bfs_inv_def)
  then have "p' \<noteq> p" using n p(2) by blast
  moreover have "p' \<in> reachable st r" using b p'(1) by (auto simp: bfs_inv_def)
  ultimately have "set (edges (st ! p')) \<inter> set (edges (st ! p)) = {}"
    using t p(1) unfolding is_tree_def by blast
  with p'(2) c cu show False by blast
qed

lemma only_at_same_shape: "only_at u st st' \<Longrightarrow> same_shape st st'"
  by (rule same_dhka_same_shape[OF only_at_same_dhka])

lemma bfs_filter_all:
  assumes t: "is_tree st r" and b: "bfs_inv st r (u # q) visited"
  shows "filter (\<lambda>v. v \<notin> insert u visited) (edges (st ! u)) = edges (st ! u)"
  using bfs_inv_fresh[OF t b] by (auto simp: filter_id_conv)

lemma Arcula_keygen_loop_fail_untouched:
  "Arcula_keygen_loop self cold (st, q, visited, rnd) = Inl (e, stf) \<Longrightarrow> is_tree st r \<Longrightarrow>
   bfs_inv st r q visited \<Longrightarrow> \<forall>p \<in> visited. \<not> twin_parent st p \<Longrightarrow>
     \<forall>p \<in> reachable st r. twin_parent st p \<longrightarrow> (\<forall>c \<in> set (edges (st ! p)). stf ! c = st ! c)"
proof (induction self cold "(st, q, visited, rnd)" arbitrary: st q visited rnd
         rule: Arcula_keygen_loop.induct)
  case (1 self cold st visited rnd)
  then show ?case by simp
next
  case (2 self cold st u q visited rnd)
  note t = "2.prems"(2) and b = "2.prems"(3) and nt = "2.prems"(4)
  have ur: "u \<in> reachable st r" using b by (simp add: bfs_inv_def)
  have ul: "u < length st" by (rule is_tree_in_heap[OF t ur])
  have inheap: "c < length st" if "p \<in> reachable st r" "c \<in> set (edges (st ! p))" for p c
    using t that by (auto simp: is_tree_def)
  show ?case
  proof (cases "Arcula_keygen_node self cold u (st, rnd)")
    case (Inl x)
    with "2.prems"(1) ul have x: "x = (e, stf)" by simp
    from Arcula_keygen_node_fail_only_at[OF Inl[unfolded x]] have oa: "only_at u st stf" .
    show ?thesis
    proof (intro ballI impI)
      fix p c assume p: "p \<in> reachable st r" "twin_parent st p" and c: "c \<in> set (edges (st ! p))"
      have "c \<noteq> u" by (rule twin_child_not_queued[OF t b nt p c])
      then show "stf ! c = st ! c" using oa inheap[OF p(1) c] by (simp add: only_at_def)
    qed
  next
    case (Inr y)
    obtain st1 rnd1 where y: "y = (st1, rnd1)" by (cases y)
    note n = Inr[unfolded y]
    note oa = Arcula_keygen_node_only_at[OF n]
    have sh: "same_shape st st1" by (rule only_at_same_shape[OF oa])
    have eu: "edges (st1 ! u) = edges (st ! u)" using sh ul by (simp add: same_shape_def)
    from "2.prems"(1) ul n eu have rest: "Arcula_keygen_loop self cold
               (st1, q @ filter (\<lambda>v. v \<notin> insert u visited) (edges (st1 ! u)), insert u visited, rnd1)
                = Inl (e, stf)" by simp
    have t1: "is_tree st1 r" by (rule same_shape_is_tree[OF sh t])
    have b1: "bfs_inv st1 r (q @ filter (\<lambda>v. v \<notin> insert u visited) (edges (st1 ! u))) (insert u visited)"
      unfolding eu bfs_filter_all[OF t b]
      by (rule bfs_inv_shape[OF sh t bfs_inv_step[OF t b]])
    have "\<not> twin_parent st u"
      using Arcula_keygen_node_certified(2)[OF n ul] by (simp add: twin_parent_def)
    then have n1: "\<forall>p \<in> insert u visited. \<not> twin_parent st1 p"
      using nt twin_parent_shape[OF sh t] b ur by (auto simp: bfs_inv_def)
    have nn: "\<not> \<not> u < length st" using ul by simp
    note ih = "2.hyps"[OF nn n refl rest t1 b1 n1]
    show ?thesis
    proof (intro ballI impI)
      fix p c assume p: "p \<in> reachable st r" "twin_parent st p" and c: "c \<in> set (edges (st ! p))"
      have cu: "c \<noteq> u" by (rule twin_child_not_queued[OF t b nt p c])
      have pl: "p < length st" by (rule is_tree_in_heap[OF t p(1)])
      have "p \<in> reachable st1 r" "twin_parent st1 p" "c \<in> set (edges (st1 ! p))"
        using p c sh pl twin_parent_shape[OF sh t p(1)]
        by (simp_all add: same_shape_reachable[OF sh] same_shape_def)
      with ih have "stf ! c = st1 ! c" by blast
      also have "st1 ! c = st ! c" using oa cu inheap[OF p(1) c] by (simp add: only_at_def)
      finally show "stf ! c = st ! c" .
    qed
  qed
qed

lemma Arcula_keygen_node_outcome:
  assumes c: "curve_in_range (curve self)"
    and k: "key (st ! u) = Some k" "length k = 32"
    and i: "0 \<le> node_id (st ! u)" "node_id (st ! u) < 2 ^ 64"
    and u: "u < length st" and e: "\<forall>e \<in> set (edges (st ! u)). e < length st"
  shows "(\<exists>st' rnd'. Arcula_keygen_node self cold u (st, rnd) = Inr (st', rnd')) \<or>
         (\<exists>stf. Arcula_keygen_node self cold u (st, rnd) = Inl (AssertionError SiblingIds, stf))"
proof -
  define sk where "sk = from_secret_exponent (curve self)
                          (randrange_from_seed__trytryagain (curve self) k)"
  have a: "ecdsa_keygen (key (st ! u)) (curve self) = Inr sk"
    using k by (simp add: ecdsa_keygen_def sk_def)
  have "0 \<le> fst (get_verifying_key sk) \<and> fst (get_verifying_key sk) < 2 ^ 256"
    using c unfolding curve_in_range_def sk_def by blast
  then have "\<exists>cert rnd'.
     create_certificate (curve self) rnd cold (get_verifying_key sk) (node_id (st ! u)) = Inr (cert, rnd')"
    using i by (simp add: create_certificate_def verification_key_to_bytes_33_def
        int_to_bytes_32_def int_to_bytes_8_def split: prod.splits)
  then obtain cert rnd' where
    b: "create_certificate (curve self) rnd cold (get_verifying_key sk) (node_id (st ! u)) = Inr (cert, rnd')"
    by blast
  show ?thesis
    using a b u e
    by (auto simp: Arcula_keygen_node_def Let_def nth_update_if)
qed

lemma certifiable_shape:
  assumes d: "same_dhka st st'" and t: "is_tree st r" and c: "certifiable st r"
  shows "certifiable st' r"
  unfolding certifiable_def same_shape_reachable[OF same_dhka_same_shape[OF d]]
proof
  fix x assume x: "x \<in> reachable st r"
  from same_dhka_fields[OF d is_tree_in_heap[OF t x]] c x
  show "(\<exists>k. key (st' ! x) = Some k \<and> length k = 32) \<and>
        0 \<le> node_id (st' ! x) \<and> node_id (st' ! x) < 2 ^ 64"
    by (simp add: certifiable_def)
qed

lemma Arcula_keygen_loop_outcome:
  "is_tree st r \<Longrightarrow> bfs_inv st r q visited \<Longrightarrow> certifiable st r \<Longrightarrow>
   curve_in_range (curve self) \<Longrightarrow>
     (\<exists>st' rnd'. Arcula_keygen_loop self cold (st, q, visited, rnd) = Inr (st', rnd')) \<or>
     (\<exists>stf. Arcula_keygen_loop self cold (st, q, visited, rnd) = Inl (AssertionError SiblingIds, stf))"
proof (induction self cold "(st, q, visited, rnd)" arbitrary: st q visited rnd
         rule: Arcula_keygen_loop.induct)
  case (1 self cold st visited rnd)
  then show ?case by simp
next
  case (2 self cold st u q visited rnd)
  note t = "2.prems"(1) and b = "2.prems"(2) and c = "2.prems"(3) and cr = "2.prems"(4)
  have ur: "u \<in> reachable st r" using b by (simp add: bfs_inv_def)
  have ul: "u < length st" by (rule is_tree_in_heap[OF t ur])
  from c ur obtain k where k: "key (st ! u) = Some k" "length k = 32"
    and i: "0 \<le> node_id (st ! u)" "node_id (st ! u) < 2 ^ 64"
    by (auto simp: certifiable_def)
  have e: "\<forall>e \<in> set (edges (st ! u)). e < length st" using t ur by (simp add: is_tree_def)
  from Arcula_keygen_node_outcome[OF cr k i ul e, of cold rnd]
  show ?case
  proof
    assume "\<exists>stf. Arcula_keygen_node self cold u (st, rnd) = Inl (AssertionError SiblingIds, stf)"
    then show ?thesis using ul by auto
  next
    assume "\<exists>st' rnd'. Arcula_keygen_node self cold u (st, rnd) = Inr (st', rnd')"
    then obtain st1 rnd1 where n: "Arcula_keygen_node self cold u (st, rnd) = Inr (st1, rnd1)"
      by blast
    note oa = Arcula_keygen_node_only_at[OF n]
    have sh: "same_shape st st1" by (rule only_at_same_shape[OF oa])
    have eu: "edges (st1 ! u) = edges (st ! u)" using sh ul by (simp add: same_shape_def)
    have t1: "is_tree st1 r" by (rule same_shape_is_tree[OF sh t])
    have b1: "bfs_inv st1 r (q @ filter (\<lambda>v. v \<notin> insert u visited) (edges (st1 ! u))) (insert u visited)"
      unfolding eu bfs_filter_all[OF t b]
      by (rule bfs_inv_shape[OF sh t bfs_inv_step[OF t b]])
    have c1: "certifiable st1 r" by (rule certifiable_shape[OF only_at_same_dhka[OF oa] t c])
    have nn: "\<not> \<not> u < length st" using ul by simp
    from "2.hyps"[OF nn n refl t1 b1 c1 cr] n ul show ?thesis by simp
  qed
qed

lemma reachable_cases:
  assumes "x \<in> reachable st r"
  shows "x = r \<or> (\<exists>p \<in> reachable st r. p < length st \<and> x \<in> set (edges (st ! p)))"
proof -
  from assms have "(r, x) \<in> (edge_rel st)\<^sup>*" by (simp add: reachable_def)
  then show ?thesis
    by (cases rule: rtranclE) (auto simp: reachable_def edge_rel_def)
qed

lemma derived_key_length:
  "derived self ps n \<Longrightarrow> \<forall>k x. length (prf_f self k x) = 32 \<Longrightarrow>
     \<exists>k. key n = Some k \<and> length k = 32"
  by (simp add: derived_def spec_private_key_def)

lemma keys_inv_certifiable:
  assumes k: "keys_inv self seed st r (reachable st r)"
    and l: "\<forall>k x. length (prf_f self k x) = 32" and i: "ids_in_range st r"
  shows "certifiable st r"
  unfolding certifiable_def
proof
  fix x assume x: "x \<in> reachable st r"
  from reachable_cases[OF x] have "\<exists>ps. derived self ps (st ! x)"
  proof
    assume "x = r"
    then show ?thesis using k by (auto simp: keys_inv_def)
  next
    assume "\<exists>p \<in> reachable st r. p < length st \<and> x \<in> set (edges (st ! p))"
    then obtain p j where p: "p \<in> reachable st r" "j < length (edges (st ! p))" "x = edges (st ! p) ! j"
      by (auto simp: in_set_conv_nth)
    with k show ?thesis unfolding keys_inv_def node_ok_def by blast
  qed
  then obtain ps where "derived self ps (st ! x)" by blast
  from derived_key_length[OF this l] i x
  show "(\<exists>k. key (st ! x) = Some k \<and> length k = 32) \<and>
        0 \<le> node_id (st ! x) \<and> node_id (st ! x) < 2 ^ 64"
    by (simp add: ids_in_range_def)
qed

lemma Arcula_keygen_distinct_ids:
  assumes r: "Arcula_keygen self seed (st, rnd) = Inr (w, st', rnd')"
    and p: "p \<in> reachable st (root self)"
  shows "\<not> twin_parent st p"
proof -
  define cold where "cold = from_secret_exponent (curve self)
                            (randrange_from_seed__trytryagain (curve self) (drop 32 seed))"
  from r have l: "length seed = 64" by (auto simp: Arcula_keygen_def split: if_splits)
  then have c: "cold_storage_keys self (drop 32 seed) = Inr cold"
    by (simp add: cold_storage_keys_def ecdsa_keygen_def cold_def)
  from r l c obtain st1 rnd1 where
    d: "DHKA_keygen self (take 32 seed) (st, rnd) = Inr (st1, rnd1)"
    and w: "w = self\<lparr>cold_storage_public_key := Some (get_verifying_key cold)\<rparr>"
    and lp: "Arcula_keygen_loop w cold (st1, [root w], {}, rnd1) = Inr (st', rnd')"
    by (auto simp: Arcula_keygen_def Let_def simp del: Arcula_keygen_loop.simps split: sum.splits)
  have cw: "curve w = curve self" "root w = root self" by (simp_all add: w)
  have "cert_inv (curve w) cold st1 {} (set [root w])" by (simp add: cert_inv_def)
  from Arcula_keygen_loop_cert_inv[OF lp this] obtain V where
    V: "root self \<in> V" "cert_inv (curve self) cold st' V {}"
    by (auto simp: cw)
  have s: "same_shape st st'"
    using DHKA_keygen_same_shape[OF d] same_dhka_same_shape[OF Arcula_keygen_loop_same_dhka[OF lp]]
    by (rule same_shape_trans)
  have "reachable st' (root self) \<subseteq> V"
    by (rule reachable_closed) (use V in \<open>auto simp: cert_inv_def\<close>)
  with p have pv: "p \<in> V" unfolding same_shape_reachable[OF s] by blast
  with V(2) have pl': "p < length st'" and ds: "distinct (map (\<lambda>e. node_id (st' ! e)) (edges (st' ! p)))"
    and ch: "\<forall>e \<in> set (edges (st' ! p)). e < length st'"
    by (simp_all add: cert_inv_def)
  have pl: "p < length st" using pl' s by (simp add: same_shape_def)
  have e: "edges (st' ! p) = edges (st ! p)" using s pl by (simp add: same_shape_def)
  have m: "map (\<lambda>e. node_id (st' ! e)) (edges (st ! p)) = map (\<lambda>e. node_id (st ! e)) (edges (st ! p))"
    using s ch e by (intro map_cong) (auto simp: same_shape_def)
  from ds show ?thesis unfolding twin_parent_def e m by simp
qed

lemma Arcula_keygen_node_sibling_fail:
  "Arcula_keygen_node self cold u (st, rnd) = Inl (AssertionError SiblingIds, stf) \<Longrightarrow>
     u < length st \<Longrightarrow> certificate (stf ! u) \<noteq> None"
  by (auto simp: Arcula_keygen_node_def Let_def nth_update_if ecdsa_keygen_def
        create_certificate_def verification_key_to_bytes_33_def int_to_bytes_32_def
        int_to_bytes_8_def
      split: sum.splits option.splits if_splits prod.splits)

lemma Arcula_keygen_node_keeps_certificates:
  assumes n: "Arcula_keygen_node self cold u (st, rnd) = Inr (st', rnd')" and u: "u < length st"
    and p: "p < length st" "p = u \<or> certificate (st ! p) \<noteq> None"
  shows "certificate (st' ! p) \<noteq> None"
proof (cases "p = u")
  case True
  from Arcula_keygen_node_certified(1)[OF n u] show ?thesis
    unfolding True certified_def by auto
next
  case False
  with Arcula_keygen_node_only_at[OF n] p show ?thesis by (simp add: only_at_def)
qed

lemma Arcula_keygen_loop_fail_issued:
  "Arcula_keygen_loop self cold (st, q, visited, rnd) = Inl (AssertionError SiblingIds, stf) \<Longrightarrow>
   \<forall>p \<in> visited. p < length st \<and> certificate (st ! p) \<noteq> None \<Longrightarrow>
     \<forall>p \<in> visited \<union> set (take 1 q). certificate (stf ! p) \<noteq> None"
proof (induction self cold "(st, q, visited, rnd)" arbitrary: st q visited rnd
         rule: Arcula_keygen_loop.induct)
  case (1 self cold st visited rnd)
  then show ?case by simp
next
  case (2 self cold st u q visited rnd)
  from "2.prems"(1) have ul: "u < length st" by (auto split: if_splits)
  show ?case
  proof (cases "Arcula_keygen_node self cold u (st, rnd)")
    case (Inl x)
    with "2.prems"(1) ul have x: "x = (AssertionError SiblingIds, stf)" by simp
    note f = Inl[unfolded x]
    note oa = Arcula_keygen_node_fail_only_at[OF f]
    show ?thesis
    proof
      fix p assume "p \<in> visited \<union> set (take 1 (u # q))"
      then consider "p = u" | "p \<noteq> u" "p \<in> visited" by auto
      then show "certificate (stf ! p) \<noteq> None"
      proof cases
        case 1
        then show ?thesis using Arcula_keygen_node_sibling_fail[OF f ul] by simp
      next
        case 2
        with "2.prems"(2) oa show ?thesis by (simp add: only_at_def)
      qed
    qed
  next
    case (Inr y)
    obtain st1 rnd1 where y: "y = (st1, rnd1)" by (cases y)
    note n = Inr[unfolded y]
    note oa = Arcula_keygen_node_only_at[OF n]
    have l1: "length st1 = length st" using oa by (simp add: only_at_def)
    from "2.prems"(1) ul n have rest: "Arcula_keygen_loop self cold
               (st1, q @ filter (\<lambda>v. v \<notin> insert u visited) (edges (st1 ! u)), insert u visited, rnd1)
                = Inl (AssertionError SiblingIds, stf)" by simp
    have i1: "\<forall>p \<in> insert u visited. p < length st1 \<and> certificate (st1 ! p) \<noteq> None"
    proof
      fix p assume p: "p \<in> insert u visited"
      then have pl: "p < length st" using ul "2.prems"(2) by auto
      have "p = u \<or> certificate (st ! p) \<noteq> None" using p "2.prems"(2) by auto
      from Arcula_keygen_node_keeps_certificates[OF n ul pl this] pl l1
      show "p < length st1 \<and> certificate (st1 ! p) \<noteq> None" by simp
    qed
    have nn: "\<not> \<not> u < length st" using ul by simp
    from "2.hyps"[OF nn n refl rest i1] show ?thesis by auto
  qed
qed

text \<open>
  C3, amended.  On a well-formed tree in which some reachable parent has two children of
  equal id, with a 64-byte seed and primitives that raise no error of their own,
  \<^verbatim>\<open>Arcula.keygen\<close> fails with the sibling-uniqueness assertion; in the heap it leaves,
  the root's certificate has been issued, and no child of such a parent has been given a
  signing key or a certificate.
\<close>

theorem sibling_ids_checked_at_parent:
  assumes "enc_accepts_prf self" and "\<forall>k x. length (prf_f self k x) = 32"
    and "curve_in_range (curve self)"
    and "is_tree st (root self)" and "ids_in_range st (root self)"
    and "no_encrypted_edges st (root self)" and "length seed = 64"
    and "p \<in> reachable st (root self)" and "twin_parent st p"
  shows "\<exists>stf. Arcula_keygen self seed (st, rnd) = Inl (AssertionError SiblingIds, stf) \<and>
           certificate (stf ! root self) \<noteq> None \<and>
           (\<forall>p' \<in> reachable st (root self). twin_parent st p' \<longrightarrow>
              (\<forall>c \<in> set (edges (st ! p')).
                 certificate (stf ! c) = certificate (st ! c) \<and>
                 signing_key (stf ! c) = signing_key (st ! c)))"
proof -
  let ?r = "root self"
  define cold where "cold = from_secret_exponent (curve self)
                            (randrange_from_seed__trytryagain (curve self) (drop 32 seed))"
  define w where "w = self\<lparr>cold_storage_public_key := Some (get_verifying_key cold)\<rparr>"
  have cw: "curve w = curve self" "root w = ?r" by (simp_all add: w_def)
  have c: "cold_storage_keys self (drop 32 seed) = Inr cold"
    using assms(7) by (simp add: cold_storage_keys_def ecdsa_keygen_def cold_def)
  from DHKA_keygen_succeeds[OF assms(1,4,5,6), of "take 32 seed" rnd] obtain st1 rnd1 where
    d: "DHKA_keygen self (take 32 seed) (st, rnd) = Inr (st1, rnd1)" by blast
  note post = DHKA_keygen_post[OF assms(4) d]
  have t1: "is_tree st1 ?r" by (rule same_shape_is_tree[OF post(1) assms(4)])
  have r1: "reachable st1 ?r = reachable st ?r" by (rule same_shape_reachable[OF post(1)])
  have i1: "ids_in_range st1 ?r" by (rule same_shape_ids_in_range[OF post(1) assms(4,5)])
  have c1: "certifiable st1 ?r"
    by (rule keys_inv_certifiable[OF _ assms(2) i1]) (use post(2) r1 in simp)
  have run: "Arcula_keygen self seed (st, rnd) =
        (case Arcula_keygen_loop w cold (st1, [?r], {}, rnd1) of
           Inl e \<Rightarrow> Inl e | Inr (st2, rnd2) \<Rightarrow> Inr (w, st2, rnd2))"
    unfolding w_def using assms(7) d c
    by (simp add: Arcula_keygen_def Let_def del: Arcula_keygen_loop.simps)
  from Arcula_keygen_loop_outcome[OF t1 bfs_inv_init c1, of w cold rnd1] assms(3)
  have "(\<exists>st' rnd'. Arcula_keygen_loop w cold (st1, [?r], {}, rnd1) = Inr (st', rnd')) \<or>
     (\<exists>stf. Arcula_keygen_loop w cold (st1, [?r], {}, rnd1) = Inl (AssertionError SiblingIds, stf))"
    by (simp add: cw)
  then obtain stf where
    f: "Arcula_keygen_loop w cold (st1, [?r], {}, rnd1) = Inl (AssertionError SiblingIds, stf)"
  proof
    assume "\<exists>st' rnd'. Arcula_keygen_loop w cold (st1, [?r], {}, rnd1) = Inr (st', rnd')"
    then obtain st' rnd' where "Arcula_keygen_loop w cold (st1, [?r], {}, rnd1) = Inr (st', rnd')"
      by blast
    with run have "Arcula_keygen self seed (st, rnd) = Inr (w, st', rnd')" by simp
    from Arcula_keygen_distinct_ids[OF this assms(8)] assms(9) show ?thesis by simp
  qed blast
  have u: "\<forall>p \<in> reachable st1 ?r. twin_parent st1 p \<longrightarrow> (\<forall>c \<in> set (edges (st1 ! p)). stf ! c = st1 ! c)"
    by (rule Arcula_keygen_loop_fail_untouched[OF f t1 bfs_inv_init]) simp
  have m: "same_more st st1" by (rule DHKA_keygen_more[OF d])
  have "certificate (stf ! c) = certificate (st ! c) \<and> signing_key (stf ! c) = signing_key (st ! c)"
    if p': "p' \<in> reachable st ?r" "twin_parent st p'" and c': "c \<in> set (edges (st ! p'))" for p' c
  proof -
    have pl: "p' < length st" by (rule is_tree_in_heap[OF assms(4) p'(1)])
    have cl: "c < length st" using assms(4) p'(1) c' by (auto simp: is_tree_def)
    have "p' \<in> reachable st1 ?r" "twin_parent st1 p'" "c \<in> set (edges (st1 ! p'))"
      using p' c' r1 twin_parent_shape[OF post(1) assms(4) p'(1)] post(1) pl
      by (simp_all add: same_shape_def)
    with u have "stf ! c = st1 ! c" by blast
    moreover have "DHKANode.more (st1 ! c) = DHKANode.more (st ! c)"
      using m cl by (simp add: same_more_def)
    ultimately show ?thesis
      by (metis ArculaNode.select_convs(1,2) ArculaNode.surjective DHKANode.select_convs(5)
          DHKANode.surjective certificate_def signing_key_def)
  qed
  moreover have "certificate (stf ! ?r) \<noteq> None"
    using Arcula_keygen_loop_fail_issued[OF f] by simp
  ultimately show ?thesis using f run by simp
qed

lemma toy_wallet_fields:
  "root (toy_wallet r) = r" "curve (toy_wallet r) = toy_curve" "prf_f (toy_wallet r) = toy_prf"
  "enc_f (toy_wallet r) = aes_ae toy_gcm"
  by (simp_all add: toy_wallet_def)

lemma toy_wallet_accepts: "enc_accepts_prf (toy_wallet r)"
  by (rule aes_ae_accepts[of _ toy_gcm]) (simp_all add: toy_wallet_fields toy_prf_length)

lemma toy_curve_in_range: "curve_in_range toy_curve"
  by (simp add: curve_in_range_def toy_curve_def get_verifying_key_def)

lemma toy_signatures_verify: "signatures_verify toy_curve"
  by (simp add: signatures_verify_def toy_curve_def get_verifying_key_def)

lemma atwins_check: "tree_check atwins 0"
  by (simp add: tree_check_def atwins_def twins_def bare_def arcula_node_def DHKANode.extend_def)

lemma atwins_twin: "twin_parent atwins 0"
  by (simp add: twin_parent_def atwins_def twins_def bare_def arcula_node_def DHKANode.extend_def)

text \<open>
  C3, as stated, fails: the assertion on the children's ids comes after the certificate of
  the dequeued parent.  For a root with two children of id 5 the run fails with the
  sibling-uniqueness assertion, and the root's certificate has been issued by then.
\<close>

theorem certificate_issued_before_sibling_check:
  "node_id (atwins ! 1) = node_id (atwins ! 2) \<and> edges (atwins ! 0) = [1, 2] \<and>
   certificate (atwins ! 0) = None \<and>
   (case Arcula_keygen (toy_wallet 0) seed64 (atwins, zeros) of
      Inl (e, stf) \<Rightarrow> e = AssertionError SiblingIds \<and> certificate (stf ! 0) \<noteq> None
    | Inr r \<Rightarrow> False)"
  by code_simp

theorem sibling_ids_checked_at_parent_witness:
  "enc_accepts_prf (toy_wallet 0) \<and> curve_in_range toy_curve \<and> is_tree atwins 0 \<and>
   ids_in_range atwins 0 \<and> no_encrypted_edges atwins 0 \<and> length seed64 = 64 \<and>
   0 \<in> reachable atwins 0 \<and> twin_parent atwins 0 \<and> 1 \<in> set (edges (atwins ! 0)) \<and>
   (\<exists>stf. Arcula_keygen (toy_wallet 0) seed64 (atwins, zeros) = Inl (AssertionError SiblingIds, stf) \<and>
      certificate (stf ! 0) \<noteq> None \<and>
      certificate (stf ! 1) = certificate (atwins ! 1) \<and>
      signing_key (stf ! 1) = signing_key (atwins ! 1))"
proof -
  note f = toy_wallet_fields[of 0]
  have a: "enc_accepts_prf (toy_wallet 0)" by (rule toy_wallet_accepts)
  have l: "\<forall>k x. length (prf_f (toy_wallet 0) k x) = 32" by (simp add: f toy_prf_length)
  have c: "curve_in_range (curve (toy_wallet 0))" by (simp add: f toy_curve_in_range)
  have t: "is_tree atwins (root (toy_wallet 0))"
    unfolding f by (rule tree_check_is_tree[OF atwins_check])
  have i: "ids_in_range atwins (root (toy_wallet 0))"
    unfolding f by (rule tree_check_ids_in_range[OF atwins_check])
      (simp add: atwins_def twins_def bare_def arcula_node_def DHKANode.extend_def)
  have n: "no_encrypted_edges atwins (root (toy_wallet 0))"
    unfolding f by (rule tree_check_no_encrypted_edges[OF atwins_check])
      (simp add: atwins_def twins_def bare_def arcula_node_def DHKANode.extend_def)
  have s: "length seed64 = 64" by (simp add: seed64_def)
  have z: "0 \<in> reachable atwins (root (toy_wallet 0))" unfolding f by (rule reachable_root)
  have e: "1 \<in> set (edges (atwins ! 0))"
    by (simp add: atwins_def twins_def bare_def arcula_node_def DHKANode.extend_def)
  from sibling_ids_checked_at_parent[OF a l c t i n s z atwins_twin, of zeros]
  obtain stf where
    r: "Arcula_keygen (toy_wallet 0) seed64 (atwins, zeros) = Inl (AssertionError SiblingIds, stf)"
    and o: "certificate (stf ! root (toy_wallet 0)) \<noteq> None"
    and u: "\<forall>p' \<in> reachable atwins (root (toy_wallet 0)). twin_parent atwins p' \<longrightarrow>
              (\<forall>c \<in> set (edges (atwins ! p')).
                 certificate (stf ! c) = certificate (atwins ! c) \<and>
                 signing_key (stf ! c) = signing_key (atwins ! c))"
    by blast
  from u z atwins_twin e have "certificate (stf ! 1) = certificate (atwins ! 1) \<and>
                 signing_key (stf ! 1) = signing_key (atwins ! 1)" by blast
  with a c t i n s z atwins_twin e r o show ?thesis unfolding f by blast
qed

lemma ahardcoded_run: "\<not> isl (Arcula_keygen (toy_wallet 0) seed64 (ahardcoded, zeros))"
  by code_simp

lemma ahardcoded_reachable: "3 \<in> reachable ahardcoded 0"
proof -
  have e: "edges (ahardcoded ! 0) = [1, 2]" "edges (ahardcoded ! 2) = [3]" "length ahardcoded = 4"
    by (simp_all add: ahardcoded_def hardcoded_def bare_def arcula_node_def DHKANode.extend_def)
  have "2 \<in> reachable ahardcoded 0"
    by (rule reachable_step[OF reachable_root]) (simp_all add: e)
  then show ?thesis
    by (rule reachable_step) (simp_all add: e)
qed

theorem certificates_verify_witness:
  "signatures_verify toy_curve \<and> 3 \<in> reachable ahardcoded 0 \<and>
   (\<exists>w st' rnd' cpk sk sg.
      Arcula_keygen (toy_wallet 0) seed64 (ahardcoded, zeros) = Inr (w, st', rnd') \<and>
      cold_storage_public_key w = Some cpk \<and> signing_key (st' ! 3) = Some sk \<and>
      certificate (st' ! 3) = Some (sg, (compressed (get_verifying_key sk), be64 (node_id (st' ! 3)))) \<and>
      length (compressed (get_verifying_key sk)) = 33 \<and>
      ec_verify toy_curve cpk sg (compressed (get_verifying_key sk) @ be64 (node_id (st' ! 3))))"
proof -
  note f = toy_wallet_fields[of 0]
  obtain w st' rnd' where
    r: "Arcula_keygen (toy_wallet 0) seed64 (ahardcoded, zeros) = Inr (w, st', rnd')"
    using ahardcoded_run by (metis sum.collapse(2) surj_pair)
  have v: "signatures_verify (curve (toy_wallet 0))" by (simp add: f toy_signatures_verify)
  have z: "3 \<in> reachable ahardcoded (root (toy_wallet 0))" unfolding f by (rule ahardcoded_reachable)
  from certificates_verify[OF r v] z obtain cpk sk sg where
    "cold_storage_public_key w = Some cpk" "signing_key (st' ! 3) = Some sk"
    "certificate (st' ! 3) = Some (sg, (compressed (get_verifying_key sk), be64 (node_id (st' ! 3))))"
    "length (compressed (get_verifying_key sk)) = 33"
    "ec_verify (curve (toy_wallet 0)) cpk sg (compressed (get_verifying_key sk) @ be64 (node_id (st' ! 3)))"
    by blast
  with r toy_signatures_verify ahardcoded_reachable show ?thesis unfolding f by blast
qed

lemma abad_run: "isl (DHKA_keygen (toy_wallet 0) (take 32 seed64) (abad, zeros))"
  by code_simp

theorem Arcula_keygen_seed_split_witness:
  "length toy_seed \<noteq> 64 \<and>
   Arcula_keygen (toy_wallet 0) toy_seed (ahardcoded, zeros) = Inl (AssertionError SeedLength, ahardcoded) \<and>
   length seed64 = 64 \<and>
   (\<exists>e. DHKA_keygen (toy_wallet 0) (take 32 seed64) (abad, zeros) = Inl e \<and>
        Arcula_keygen (toy_wallet 0) seed64 (abad, zeros) = Inl e) \<and>
   (\<exists>w st' rnd' st1 rnd1.
      Arcula_keygen (toy_wallet 0) seed64 (ahardcoded, zeros) = Inr (w, st', rnd') \<and>
      DHKA_keygen (toy_wallet 0) (take 32 seed64) (ahardcoded, zeros) = Inr (st1, rnd1) \<and>
      same_dhka st1 st' \<and>
      cold_storage_public_key w =
        Some (get_verifying_key (from_secret_exponent toy_curve
               (randrange_from_seed__trytryagain toy_curve (drop 32 seed64)))))"
proof -
  note f = toy_wallet_fields[of 0]
  note k = Arcula_keygen_seed_split[of _ "toy_wallet 0"]
  have a: "length toy_seed \<noteq> 64" by (simp add: toy_seed_def)
  with k[of toy_seed ahardcoded zeros]
  have b: "Arcula_keygen (toy_wallet 0) toy_seed (ahardcoded, zeros) = Inl (AssertionError SeedLength, ahardcoded)"
    by blast
  have s: "length seed64 = 64" by (simp add: seed64_def)
  obtain e where e: "DHKA_keygen (toy_wallet 0) (take 32 seed64) (abad, zeros) = Inl e"
    using abad_run by (metis sum.collapse(1))
  with k[of seed64 abad zeros] s
  have c: "Arcula_keygen (toy_wallet 0) seed64 (abad, zeros) = Inl e" by blast
  obtain w st' rnd' where
    r: "Arcula_keygen (toy_wallet 0) seed64 (ahardcoded, zeros) = Inr (w, st', rnd')"
    using ahardcoded_run by (metis sum.collapse(2) surj_pair)
  with k[of seed64 ahardcoded zeros] obtain st1 rnd1 where
    d: "DHKA_keygen (toy_wallet 0) (take 32 seed64) (ahardcoded, zeros) = Inr (st1, rnd1)"
      "same_dhka st1 st'"
    and w: "w = (toy_wallet 0)\<lparr>cold_storage_public_key :=
                 Some (get_verifying_key
                         (from_secret_exponent (curve (toy_wallet 0))
                            (randrange_from_seed__trytryagain (curve (toy_wallet 0)) (drop 32 seed64))))\<rparr>"
    by blast
  from w have "cold_storage_public_key w =
        Some (get_verifying_key (from_secret_exponent toy_curve
               (randrange_from_seed__trytryagain toy_curve (drop 32 seed64))))"
    by (simp add: f)
  with a b s e c r d show ?thesis by blast
qed

section \<open>Determinism up to the randomness drawn (C4)\<close>

lemma erase_simps:
  "length (erase st) = length st"
  "a < length st \<Longrightarrow> erase st ! a = erase_node (st ! a)"
  "erase (st[a := n]) = (erase st)[a := erase_node n]"
  by (simp_all add: erase_def map_update)

lemma erase_node_simps:
  "node_id (erase_node n) = node_id n" "edges (erase_node n) = edges n"
  "secret (erase_node n) = secret n" "encryption_key (erase_node n) = encryption_key n"
  "label (erase_node n) = label n" "key (erase_node n) = key n"
  "length (encrypted_edges (erase_node n)) = length (encrypted_edges n)"
  "erase_node (n\<lparr>key := k, label := l, secret := s, encryption_key := t\<rparr>) =
     (erase_node n)\<lparr>key := k, label := l, secret := s, encryption_key := t\<rparr>"
  "erase_node (n\<lparr>encrypted_edges := encrypted_edges n @ [c]\<rparr>) =
     (erase_node n)\<lparr>encrypted_edges := encrypted_edges (erase_node n) @ [([], [])]\<rparr>"
  by (simp_all add: erase_node_def)

lemma without_randomness_simps:
  "prf_f (without_randomness self) = prf_f self" "root (without_randomness self) = root self"
  "enc_f (without_randomness self) rnd k m = Inr (([], []), rnd)"
  by (simp_all add: without_randomness_def)

lemma label_secret_without_randomness:
  "label_secret_encryption_key_from_parent (without_randomness self) ps i =
   label_secret_encryption_key_from_parent self ps i"
  by (simp add: label_secret_encryption_key_from_parent_def without_randomness_simps
      split: sum.splits option.splits)

lemma edge_key_without_randomness:
  "edge_encryption_key (without_randomness self) a b = edge_encryption_key self a b"
  by (simp add: edge_encryption_key_def without_randomness_simps split: option.splits)

lemma keygen_edge_InrI:
  assumes "v \<notin> vis" "v < length st"
    and "label_secret_encryption_key_from_parent self (secret (st ! u)) (node_id (st ! v)) = Inr (l, s, t, k)"
    and "st1 = st[v := (st ! v)\<lparr>key := Some k, label := Some l, secret := Some s,
                                       encryption_key := Some t\<rparr>]"
    and "edge_encryption_key self (encryption_key (st1 ! u)) (label (st1 ! v)) = Inr ek"
    and "bytes_add (encryption_key (st1 ! v)) (key (st1 ! v)) = Inr m"
    and "encrypt_edge self rnd ek m = Inr (c, rnd')"
  shows "keygen_edge self u vis v (st, q, rnd) =
     Inr (st1[u := (st1 ! u)\<lparr>encrypted_edges := encrypted_edges (st1 ! u) @ [c]\<rparr>], q @ [v], rnd')"
  using assms(1-3,5-7) unfolding assms(4) by (simp add: keygen_edge_def Let_def)

lemma keygen_edge_InrE:
  assumes e: "keygen_edge self u vis v (st, q, rnd) = Inr (st', q', rnd')"
  obtains l s t k st1 ek m c where "v \<notin> vis" "v < length st"
    and "label_secret_encryption_key_from_parent self (secret (st ! u)) (node_id (st ! v)) = Inr (l, s, t, k)"
    and "st1 = st[v := (st ! v)\<lparr>key := Some k, label := Some l, secret := Some s,
                                       encryption_key := Some t\<rparr>]"
    and "edge_encryption_key self (encryption_key (st1 ! u)) (label (st1 ! v)) = Inr ek"
    and "bytes_add (encryption_key (st1 ! v)) (key (st1 ! v)) = Inr m"
    and "encrypt_edge self rnd ek m = Inr (c, rnd')"
    and "st' = st1[u := (st1 ! u)\<lparr>encrypted_edges := encrypted_edges (st1 ! u) @ [c]\<rparr>]"
    and "q' = q @ [v]"
proof -
  from e have v: "v \<notin> vis" "v < length st" by (auto simp: keygen_edge_def split: if_splits)
  from e v obtain l s t k where
    d: "label_secret_encryption_key_from_parent self (secret (st ! u)) (node_id (st ! v)) = Inr (l, s, t, k)"
    by (auto simp: keygen_edge_def split: if_splits sum.splits)
  define st1 where "st1 = st[v := (st ! v)\<lparr>key := Some k, label := Some l, secret := Some s,
                                       encryption_key := Some t\<rparr>]"
  from e v d have e1': "(case edge_encryption_key self (encryption_key (st1 ! u)) (label (st1 ! v)) of
                    Inl e \<Rightarrow> Inl (e, st1)
                  | Inr ek \<Rightarrow>
                      (case bytes_add (encryption_key (st1 ! v)) (key (st1 ! v)) of
                         Inl e \<Rightarrow> Inl (e, st1)
                       | Inr m \<Rightarrow>
                           (case encrypt_edge self rnd ek m of
                              Inl e \<Rightarrow> Inl (e, st1)
                            | Inr (c, rnd') \<Rightarrow>
                                Inr (st1[u := (st1 ! u)\<lparr>encrypted_edges :=
                                                       encrypted_edges (st1 ! u) @ [c]\<rparr>],
                                    q @ [v], rnd')))) = Inr (st', q', rnd')"
    unfolding st1_def by (simp add: keygen_edge_def Let_def)
  then obtain ek where
    ek: "edge_encryption_key self (encryption_key (st1 ! u)) (label (st1 ! v)) = Inr ek"
    by (cases "edge_encryption_key self (encryption_key (st1 ! u)) (label (st1 ! v))") auto
  with e1' obtain m where
    m: "bytes_add (encryption_key (st1 ! v)) (key (st1 ! v)) = Inr m"
    by (cases "bytes_add (encryption_key (st1 ! v)) (key (st1 ! v))") auto
  with e1' ek obtain c r where
    c: "encrypt_edge self rnd ek m = Inr (c, r)"
    by (cases "encrypt_edge self rnd ek m") auto
  with e1' ek m have "st' = st1[u := (st1 ! u)\<lparr>encrypted_edges := encrypted_edges (st1 ! u) @ [c]\<rparr>]"
    "q' = q @ [v]" "r = rnd'" by simp_all
  with that[OF v d st1_def ek m] c show ?thesis by simp
qed

lemma keygen_edge_erase:
  assumes e: "keygen_edge self u vis v (st, q, rnd) = Inr (st', q', rnd')" and u: "u < length st"
  shows "keygen_edge (without_randomness self) u vis v (erase st, q, r0) = Inr (erase st', q', r0)"
proof -
  from e obtain l s t k st1 ek m c where v: "v \<notin> vis" "v < length st"
    and d: "label_secret_encryption_key_from_parent self (secret (st ! u)) (node_id (st ! v)) = Inr (l, s, t, k)"
    and st1: "st1 = st[v := (st ! v)\<lparr>key := Some k, label := Some l, secret := Some s,
                                       encryption_key := Some t\<rparr>]"
    and ek: "edge_encryption_key self (encryption_key (st1 ! u)) (label (st1 ! v)) = Inr ek"
    and m: "bytes_add (encryption_key (st1 ! v)) (key (st1 ! v)) = Inr m"
    and st': "st' = st1[u := (st1 ! u)\<lparr>encrypted_edges := encrypted_edges (st1 ! u) @ [c]\<rparr>]"
    and q': "q' = q @ [v]"
    by (rule keygen_edge_InrE)
  have l1: "length st1 = length st" by (simp add: st1)
  have e1: "erase st1 = (erase st)[v := (erase st ! v)\<lparr>key := Some k, label := Some l, secret := Some s,
                                       encryption_key := Some t\<rparr>]"
    using v by (simp add: st1 erase_simps erase_node_simps)
  have e2: "erase st' = (erase st1)[u := (erase st1 ! u)\<lparr>encrypted_edges :=
                 encrypted_edges (erase st1 ! u) @ [([], [])]\<rparr>]"
    using u l1 by (simp add: st' erase_simps erase_node_simps)
  have f: "secret (erase st ! u) = secret (st ! u)" "node_id (erase st ! v) = node_id (st ! v)"
    "encryption_key (erase st1 ! u) = encryption_key (st1 ! u)" "label (erase st1 ! v) = label (st1 ! v)"
    "encryption_key (erase st1 ! v) = encryption_key (st1 ! v)" "key (erase st1 ! v) = key (st1 ! v)"
    using u v l1 by (simp_all add: erase_simps erase_node_simps)
  have "keygen_edge (without_randomness self) u vis v (erase st, q, r0) =
     Inr ((erase st1)[u := (erase st1 ! u)\<lparr>encrypted_edges :=
                 encrypted_edges (erase st1 ! u) @ [([], [])]\<rparr>], q @ [v], r0)"
  proof (rule keygen_edge_InrI[OF v(1)])
    show "v < length (erase st)" using v by (simp add: erase_simps)
    show "label_secret_encryption_key_from_parent (without_randomness self)
            (secret (erase st ! u)) (node_id (erase st ! v)) = Inr (l, s, t, k)"
      unfolding f label_secret_without_randomness by (rule d)
    show "erase st1 = (erase st)[v := (erase st ! v)\<lparr>key := Some k, label := Some l, secret := Some s,
                                       encryption_key := Some t\<rparr>]" by (rule e1)
    show "edge_encryption_key (without_randomness self) (encryption_key (erase st1 ! u))
            (label (erase st1 ! v)) = Inr ek"
      unfolding f edge_key_without_randomness by (rule ek)
    show "bytes_add (encryption_key (erase st1 ! v)) (key (erase st1 ! v)) = Inr m"
      unfolding f by (rule m)
    show "encrypt_edge (without_randomness self) r0 ek m = Inr (([], []), r0)"
      by (simp add: encrypt_edge_def without_randomness_simps)
  qed
  then show ?thesis unfolding e2 q' .
qed

lemma keygen_edges_erase:
  "keygen_edges self u vis vs (st, q, rnd) = Inr (st', q', rnd') \<Longrightarrow> u < length st \<Longrightarrow>
   keygen_edges (without_randomness self) u vis vs (erase st, q, r0) = Inr (erase st', q', r0)"
proof (induction vs arbitrary: st q rnd)
  case Nil
  then show ?case by simp
next
  case (Cons v vs)
  from Cons.prems(1) obtain st1 q1 rnd1 where
    a: "keygen_edge self u vis v (st, q, rnd) = Inr (st1, q1, rnd1)" and
    b: "keygen_edges self u vis vs (st1, q1, rnd1) = Inr (st', q', rnd')"
    by (auto split: sum.splits)
  have "length st1 = length st" using keygen_edge_frame(1)[OF a] by (simp add: dframe_def)
  with Cons.prems(2) have "u < length st1" by simp
  from keygen_edge_erase[OF a Cons.prems(2), of r0] Cons.IH[OF b this]
  show ?case by simp
qed

lemma keygen_loop_erase:
  "keygen_loop self (st, q, visited, rnd) = Inr (st', rnd') \<Longrightarrow>
   keygen_loop (without_randomness self) (erase st, q, visited, r0) = Inr (erase st', r0)"
proof (induction self "(st, q, visited, rnd)" arbitrary: st q visited rnd rule: keygen_loop.induct)
  case (1 self st visited rnd)
  then show ?case by simp
next
  case (2 self st u q visited rnd)
  from "2.prems"(1) have ul: "u < length st" by (auto split: if_splits)
  from "2.prems"(1) ul obtain st1 q1 rnd1 where
    e: "keygen_edges self u (insert u visited) (edges (st ! u)) (st, q, rnd) = Inr (st1, q1, rnd1)"
    and l: "length (encrypted_edges (st1 ! u)) = length (edges (st1 ! u))"
    and rest: "keygen_loop self (st1, q1, insert u visited, rnd1) = Inr (st', rnd')"
    by (auto split: sum.splits if_splits)
  have l1: "length st1 = length st" using keygen_edges_frame[OF e] by (simp add: dframe_def)
  have nn: "\<not> \<not> u < length st" using ul by simp
  note ih = "2.hyps"[OF nn e refl refl l rest]
  from keygen_edges_erase[OF e ul, of r0] ih ul l l1
  show ?case by (simp add: erase_simps erase_node_simps)
qed

lemma DHKA_keygen_erase:
  assumes k: "DHKA_keygen self seed (st, rnd) = Inr (st', rnd')"
  shows "DHKA_keygen (without_randomness self) seed (erase st, r0) = Inr (erase st', r0)"
proof -
  let ?r = "root self"
  from k have rl: "?r < length st" by (auto simp: DHKA_keygen_def split: if_splits)
  from k rl obtain l s t' k' where
    d: "label_secret_encryption_key_from_parent self (Some seed) (node_id (st ! ?r)) = Inr (l, s, t', k')"
    by (auto simp: DHKA_keygen_def split: sum.splits)
  define st0 where "st0 = st[?r := (st ! ?r)\<lparr>key := Some k', label := Some l,
                                                 secret := Some s, encryption_key := Some t'\<rparr>]"
  from k rl d have loop: "keygen_loop self (st0, [?r], {}, rnd) = Inr (st', rnd')"
    by (simp add: DHKA_keygen_def st0_def)
  have e0: "erase st0 = (erase st)[?r := (erase st ! ?r)\<lparr>key := Some k', label := Some l,
                                                 secret := Some s, encryption_key := Some t'\<rparr>]"
    using rl by (simp add: st0_def erase_simps erase_node_simps)
  have f: "node_id (erase st ! ?r) = node_id (st ! ?r)" "?r < length (erase st)"
    using rl by (simp_all add: erase_simps erase_node_simps)
  have "DHKA_keygen (without_randomness self) seed (erase st, r0) =
          keygen_loop (without_randomness self) (erase st0, [?r], {}, r0)"
    unfolding e0 using d f(2)
    by (simp add: DHKA_keygen_def without_randomness_simps label_secret_without_randomness f(1)
          del: keygen_loop.simps)
  with keygen_loop_erase[OF loop, of r0] show ?thesis by simp
qed

lemma DHKA_keygen_same_keys:
  assumes "DHKA_keygen self seed (st, rnd1) = Inr (st1, rnd1')"
    and "DHKA_keygen self seed (st, rnd2) = Inr (st2, rnd2')"
  shows "erase st1 = erase st2"
  using DHKA_keygen_erase[OF assms(1), of "\<lambda>i. 0"] DHKA_keygen_erase[OF assms(2), of "\<lambda>i. 0"]
  by simp

lemma erase_all_simps:
  "length (erase_all st) = length st"
  "a < length st \<Longrightarrow> erase_all st ! a = erase_all_node (st ! a)"
  "erase_all (st[a := n]) = (erase_all st)[a := erase_all_node n]"
  by (simp_all add: erase_all_def map_update)

lemma erase_all_node_simps:
  "node_id (erase_all_node n) = node_id n" "edges (erase_all_node n) = edges n"
  "key (erase_all_node n) = key n"
  "erase_all_node (n\<lparr>signing_key := Some sk, certificate := Some (sg, mm)\<rparr>) =
     (erase_all_node n)\<lparr>signing_key := Some sk, certificate := Some ([], mm)\<rparr>"
  by (simp_all add: erase_all_node_def erase_node_def)

lemma erase_all_erase: "erase st1 = erase st2 \<Longrightarrow> erase_all st1 = erase_all st2"
proof -
  assume e: "erase st1 = erase st2"
  then have l: "length st1 = length st2" by (metis erase_simps(1))
  have "erase_all_node (st1 ! a) = erase_all_node (st2 ! a)" if "a < length st1" for a
  proof -
    from e that l have "erase_node (st1 ! a) = erase_node (st2 ! a)"
      by (metis erase_simps(2))
    moreover from this have "certificate (erase_node (st1 ! a)) = certificate (erase_node (st2 ! a))"
      by simp
    then have "certificate (st1 ! a) = certificate (st2 ! a)" by (simp add: erase_node_def)
    ultimately have "erase_node (st1 ! a) = erase_node (st2 ! a) \<and> certificate (st1 ! a) = certificate (st2 ! a)"
      by simp
    then show ?thesis by (simp add: erase_all_node_def)
  qed
  then show ?thesis using l by (simp add: erase_all_def list_eq_iff_nth_eq)
qed

lemma without_signing_randomness_simps:
  "root (without_signing_randomness w) = root w"
  "ecdsa_keygen k (curve (without_signing_randomness w)) = ecdsa_keygen k (curve w)"
  "cold_storage_public_key (without_signing_randomness w) = cold_storage_public_key w"
  by (simp_all add: without_signing_randomness_def ecdsa_keygen_def split: option.splits)

lemma create_certificate_without_randomness:
  "create_certificate (curve w) rnd cold pk i = Inr ((sg, mm), rnd') \<Longrightarrow>
   create_certificate (curve (without_signing_randomness w)) r0 cold pk i = Inr (([], mm), r0)"
  by (auto simp: create_certificate_def without_signing_randomness_def ecdsa_sign_def
      split: sum.splits prod.splits)

lemma Arcula_keygen_node_InrI:
  assumes u: "u < length st"
    and k: "ecdsa_keygen (key (st ! u)) (curve self) = Inr sk"
    and c: "create_certificate (curve self) rnd cold (get_verifying_key sk) (node_id (st ! u))
              = Inr (cert, rnd')"
    and h: "\<forall>e \<in> set (edges (st ! u)). e < length st"
    and d: "distinct (map (\<lambda>e. node_id (st ! e)) (edges (st ! u)))"
  shows "Arcula_keygen_node self cold u (st, rnd) =
           Inr (st[u := (st ! u)\<lparr>signing_key := Some sk, certificate := Some cert\<rparr>], rnd')"
proof -
  define st2 where "st2 = st[u := (st ! u)\<lparr>signing_key := Some sk, certificate := Some cert\<rparr>]"
  have m: "map (\<lambda>e. node_id (st2 ! e)) (edges (st ! u)) = map (\<lambda>e. node_id (st ! e)) (edges (st ! u))"
    by (rule map_cong) (auto simp: st2_def nth_update_if)
  have "card (set (map (\<lambda>e. node_id (st2 ! e)) (edges (st ! u)))) = length (edges (st ! u))"
    unfolding m using distinct_card[OF d] by simp
  then show ?thesis
    using u k c h unfolding st2_def
    by (simp add: Arcula_keygen_node_def Let_def)
qed

lemma Arcula_keygen_node_InrE:
  assumes n: "Arcula_keygen_node self cold u (st, rnd) = Inr (st', rnd')" and u: "u < length st"
  obtains sk cert where "ecdsa_keygen (key (st ! u)) (curve self) = Inr sk"
    and "create_certificate (curve self) rnd cold (get_verifying_key sk) (node_id (st ! u))
              = Inr (cert, rnd')"
    and "st' = st[u := (st ! u)\<lparr>signing_key := Some sk, certificate := Some cert\<rparr>]"
proof -
  from n obtain sk where sk: "ecdsa_keygen (key (st ! u)) (curve self) = Inr sk"
    by (auto simp: Arcula_keygen_node_def split: sum.splits)
  define st1 where "st1 = st[u := (st ! u)\<lparr>signing_key := Some sk\<rparr>]"
  have s1: "signing_key (st1 ! u) = Some sk" "node_id (st1 ! u) = node_id (st ! u)"
    using u by (simp_all add: st1_def)
  from n sk s1 obtain cert where
    c: "create_certificate (curve self) rnd cold (get_verifying_key sk) (node_id (st ! u)) = Inr (cert, rnd')"
    and st': "st' = st1[u := (st1 ! u)\<lparr>certificate := Some cert\<rparr>]"
    by (auto simp: Arcula_keygen_node_def Let_def st1_def[symmetric]
        split: sum.splits if_splits prod.splits)
  have "st' = st[u := (st ! u)\<lparr>signing_key := Some sk, certificate := Some cert\<rparr>]"
    using u by (simp add: st' st1_def)
  with that[OF sk c] show ?thesis by simp
qed

lemma Arcula_keygen_node_erase:
  assumes n: "Arcula_keygen_node w cold u (st, rnd) = Inr (st', rnd')" and u: "u < length st"
  shows "Arcula_keygen_node (without_signing_randomness w) cold u (erase_all st, r0)
           = Inr (erase_all st', r0)"
proof -
  from n u obtain sk cert where sk: "ecdsa_keygen (key (st ! u)) (curve w) = Inr sk"
    and c: "create_certificate (curve w) rnd cold (get_verifying_key sk) (node_id (st ! u))
              = Inr (cert, rnd')"
    and st': "st' = st[u := (st ! u)\<lparr>signing_key := Some sk, certificate := Some cert\<rparr>]"
    by (rule Arcula_keygen_node_InrE)
  obtain sg mm where cert: "cert = (sg, mm)" by (cases cert)
  note k = Arcula_keygen_node_certified(2,3)[OF n u]
  have f: "key (erase_all st ! u) = key (st ! u)" "node_id (erase_all st ! u) = node_id (st ! u)"
    "edges (erase_all st ! u) = edges (st ! u)"
    using u by (simp_all add: erase_all_simps erase_all_node_simps)
  have m: "map (\<lambda>e. node_id (erase_all st ! e)) (edges (st ! u)) = map (\<lambda>e. node_id (st ! e)) (edges (st ! u))"
    by (rule map_cong) (use k(2) in \<open>auto simp: erase_all_simps erase_all_node_simps\<close>)
  have "Arcula_keygen_node (without_signing_randomness w) cold u (erase_all st, r0) =
     Inr ((erase_all st)[u := (erase_all st ! u)\<lparr>signing_key := Some sk, certificate := Some ([], mm)\<rparr>], r0)"
  proof (rule Arcula_keygen_node_InrI)
    show "u < length (erase_all st)" using u by (simp add: erase_all_simps)
    show "ecdsa_keygen (key (erase_all st ! u)) (curve (without_signing_randomness w)) = Inr sk"
      unfolding f without_signing_randomness_simps by (rule sk)
    show "create_certificate (curve (without_signing_randomness w)) r0 cold (get_verifying_key sk)
            (node_id (erase_all st ! u)) = Inr (([], mm), r0)"
      unfolding f by (rule create_certificate_without_randomness[OF c[unfolded cert]])
    show "\<forall>e \<in> set (edges (erase_all st ! u)). e < length (erase_all st)"
      unfolding f using k(2) by (simp add: erase_all_simps)
    show "distinct (map (\<lambda>e. node_id (erase_all st ! e)) (edges (erase_all st ! u)))"
      unfolding f m by (rule k(1))
  qed
  moreover have "erase_all st' = (erase_all st)[u := (erase_all st ! u)\<lparr>signing_key := Some sk,
      certificate := Some ([], mm)\<rparr>]"
    using u by (simp add: st' cert erase_all_simps erase_all_node_simps)
  ultimately show ?thesis by simp
qed

lemma Arcula_keygen_loop_erase:
  "Arcula_keygen_loop w cold (st, q, visited, rnd) = Inr (st', rnd') \<Longrightarrow>
   Arcula_keygen_loop (without_signing_randomness w) cold (erase_all st, q, visited, r0)
     = Inr (erase_all st', r0)"
proof (induction w cold "(st, q, visited, rnd)" arbitrary: st q visited rnd
         rule: Arcula_keygen_loop.induct)
  case (1 self cold st visited rnd)
  then show ?case by simp
next
  case (2 self cold st u q visited rnd)
  from "2.prems"(1) have ul: "u < length st" by (auto split: if_splits)
  from "2.prems"(1) ul obtain st1 rnd1 where
    n: "Arcula_keygen_node self cold u (st, rnd) = Inr (st1, rnd1)"
    and rest: "Arcula_keygen_loop self cold
               (st1, q @ filter (\<lambda>v. v \<notin> insert u visited) (edges (st1 ! u)), insert u visited, rnd1)
                = Inr (st', rnd')"
    by (auto split: sum.splits)
  have l1: "length st1 = length st" using Arcula_keygen_node_only_at[OF n] by (simp add: only_at_def)
  have nn: "\<not> \<not> u < length st" using ul by simp
  note ih = "2.hyps"[OF nn n refl rest]
  have "edges (erase_all st1 ! u) = edges (st1 ! u)"
    using ul l1 by (simp add: erase_all_simps erase_all_node_simps)
  with Arcula_keygen_node_erase[OF n ul, of r0] ih ul
  show ?case by (simp add: erase_all_simps)
qed

lemma Arcula_keygen_same_material:
  assumes a: "Arcula_keygen w seed (st, rnd1) = Inr (w1, st1, rnd1')"
    and b: "Arcula_keygen w seed (st, rnd2) = Inr (w2, st2, rnd2')"
  shows "erase_all st1 = erase_all st2" and "cold_storage_public_key w1 = cold_storage_public_key w2"
proof -
  define cold where "cold = from_secret_exponent (curve w)
                            (randrange_from_seed__trytryagain (curve w) (drop 32 seed))"
  define w' where "w' = w\<lparr>cold_storage_public_key := Some (get_verifying_key cold)\<rparr>"
  from a have l: "length seed = 64" by (auto simp: Arcula_keygen_def split: if_splits)
  then have c: "cold_storage_keys w (drop 32 seed) = Inr cold"
    by (simp add: cold_storage_keys_def ecdsa_keygen_def cold_def)
  from a l c obtain m1 r1 where
    d1: "DHKA_keygen w (take 32 seed) (st, rnd1) = Inr (m1, r1)" and w1: "w1 = w'"
    and l1: "Arcula_keygen_loop w' cold (m1, [root w'], {}, r1) = Inr (st1, rnd1')"
    unfolding w'_def
    by (auto simp: Arcula_keygen_def Let_def simp del: Arcula_keygen_loop.simps split: sum.splits)
  from b l c obtain m2 r2 where
    d2: "DHKA_keygen w (take 32 seed) (st, rnd2) = Inr (m2, r2)" and w2: "w2 = w'"
    and l2: "Arcula_keygen_loop w' cold (m2, [root w'], {}, r2) = Inr (st2, rnd2')"
    unfolding w'_def
    by (auto simp: Arcula_keygen_def Let_def simp del: Arcula_keygen_loop.simps split: sum.splits)
  have "erase_all m1 = erase_all m2"
    by (rule erase_all_erase[OF DHKA_keygen_same_keys[OF d1 d2]])
  with Arcula_keygen_loop_erase[OF l1, of "\<lambda>i. 0"] Arcula_keygen_loop_erase[OF l2, of "\<lambda>i. 0"]
  show "erase_all st1 = erase_all st2" by simp
  show "cold_storage_public_key w1 = cold_storage_public_key w2" by (simp add: w1 w2)
qed

text \<open>
  C4, as stated, fails: \<^verbatim>\<open>aes_ae\<close> draws a fresh nonce from the operating system for every
  edge.  Two runs of \<^verbatim>\<open>DHKA.keygen\<close> from the same seed on the same hierarchy, with
  different random bytes, return with different nonces in the first encrypted edge of the
  root (and the same secrets).
\<close>

theorem edge_nonces_differ_between_runs:
  "(case (DHKA_keygen (toy_dhka 0) toy_seed (hardcoded, zeros),
          DHKA_keygen (toy_dhka 0) toy_seed (hardcoded, ones)) of
      (Inr (st1, r1), Inr (st2, r2)) \<Rightarrow>
         fst (encrypted_edges (st1 ! 0) ! 0) \<noteq> fst (encrypted_edges (st2 ! 0) ! 0) \<and>
         secret (st1 ! 1) = secret (st2 ! 1)
    | _ \<Rightarrow> False)"
  by code_simp

lemma erase_fields:
  assumes e: "erase st1 = erase st2" and a: "a < length st1"
  shows "label (st1 ! a) = label (st2 ! a)" "secret (st1 ! a) = secret (st2 ! a)"
    "encryption_key (st1 ! a) = encryption_key (st2 ! a)" "key (st1 ! a) = key (st2 ! a)"
    "length (encrypted_edges (st1 ! a)) = length (encrypted_edges (st2 ! a))"
proof -
  from e have l: "length st1 = length st2" by (metis erase_simps(1))
  from e a l have n: "erase_node (st1 ! a) = erase_node (st2 ! a)" by (metis erase_simps(2))
  from arg_cong[OF n, of label] show "label (st1 ! a) = label (st2 ! a)"
    by (simp add: erase_node_simps)
  from arg_cong[OF n, of secret] show "secret (st1 ! a) = secret (st2 ! a)"
    by (simp add: erase_node_simps)
  from arg_cong[OF n, of encryption_key] show "encryption_key (st1 ! a) = encryption_key (st2 ! a)"
    by (simp add: erase_node_simps)
  from arg_cong[OF n, of key] show "key (st1 ! a) = key (st2 ! a)"
    by (simp add: erase_node_simps)
  from arg_cong[OF n, of "\<lambda>n. length (encrypted_edges n)"]
  show "length (encrypted_edges (st1 ! a)) = length (encrypted_edges (st2 ! a))"
    by (simp add: erase_node_simps)
qed

lemma erase_all_fields:
  assumes e: "erase_all st1 = erase_all st2" and a: "a < length st1"
  shows "label (st1 ! a) = label (st2 ! a)" "secret (st1 ! a) = secret (st2 ! a)"
    "encryption_key (st1 ! a) = encryption_key (st2 ! a)" "key (st1 ! a) = key (st2 ! a)"
    "length (encrypted_edges (st1 ! a)) = length (encrypted_edges (st2 ! a))"
    "signing_key (st1 ! a) = signing_key (st2 ! a)"
    "map_option snd (certificate (st1 ! a)) = map_option snd (certificate (st2 ! a))"
proof -
  from e have l: "length st1 = length st2" by (metis erase_all_simps(1))
  from e a l have n: "erase_all_node (st1 ! a) = erase_all_node (st2 ! a)"
    by (metis erase_all_simps(2))
  from arg_cong[OF n, of label] show "label (st1 ! a) = label (st2 ! a)"
    by (simp add: erase_all_node_def erase_node_def)
  from arg_cong[OF n, of secret] show "secret (st1 ! a) = secret (st2 ! a)"
    by (simp add: erase_all_node_def erase_node_def)
  from arg_cong[OF n, of encryption_key] show "encryption_key (st1 ! a) = encryption_key (st2 ! a)"
    by (simp add: erase_all_node_def erase_node_def)
  from arg_cong[OF n, of key] show "key (st1 ! a) = key (st2 ! a)"
    by (simp add: erase_all_node_def erase_node_def)
  from arg_cong[OF n, of "\<lambda>n. length (encrypted_edges n)"]
  show "length (encrypted_edges (st1 ! a)) = length (encrypted_edges (st2 ! a))"
    by (simp add: erase_all_node_def erase_node_def)
  from arg_cong[OF n, of signing_key] show "signing_key (st1 ! a) = signing_key (st2 ! a)"
    by (simp add: erase_all_node_def erase_node_def)
  from arg_cong[OF n, of "\<lambda>n. map_option snd (certificate n)"]
  show "map_option snd (certificate (st1 ! a)) = map_option snd (certificate (st2 ! a))"
    by (simp add: erase_all_node_def erase_node_def option.map_comp comp_def)
qed

text \<open>
  C4, amended.  Two runs from the same seed on the same hierarchy that both return, whatever
  randomness each draws, agree on every node's label, secret, encryption key and private key
  and on the number of its encrypted edges; two runs of \<^verbatim>\<open>Arcula.keygen\<close> agree on the cold
  storage public key as well, and on every node's signing key and certificate message.
\<close>

theorem keys_reproducible_up_to_randomness:
  "(\<forall>st1 r1 st2 r2.
      DHKA_keygen self seed (st, rnd1) = Inr (st1, r1) \<longrightarrow>
      DHKA_keygen self seed (st, rnd2) = Inr (st2, r2) \<longrightarrow>
        length st1 = length st2 \<and>
        (\<forall>a < length st1.
           label (st1 ! a) = label (st2 ! a) \<and> secret (st1 ! a) = secret (st2 ! a) \<and>
           encryption_key (st1 ! a) = encryption_key (st2 ! a) \<and> key (st1 ! a) = key (st2 ! a) \<and>
           length (encrypted_edges (st1 ! a)) = length (encrypted_edges (st2 ! a)))) \<and>
   (\<forall>w1 st1 r1 w2 st2 r2.
      Arcula_keygen wallet wseed (wst, rnd1) = Inr (w1, st1, r1) \<longrightarrow>
      Arcula_keygen wallet wseed (wst, rnd2) = Inr (w2, st2, r2) \<longrightarrow>
        cold_storage_public_key w1 = cold_storage_public_key w2 \<and> length st1 = length st2 \<and>
        (\<forall>a < length st1.
           label (st1 ! a) = label (st2 ! a) \<and> secret (st1 ! a) = secret (st2 ! a) \<and>
           encryption_key (st1 ! a) = encryption_key (st2 ! a) \<and> key (st1 ! a) = key (st2 ! a) \<and>
           length (encrypted_edges (st1 ! a)) = length (encrypted_edges (st2 ! a)) \<and>
           signing_key (st1 ! a) = signing_key (st2 ! a) \<and>
           map_option snd (certificate (st1 ! a)) = map_option snd (certificate (st2 ! a))))"
proof (intro conjI allI impI)
  fix st1 r1 st2 r2
  assume a: "DHKA_keygen self seed (st, rnd1) = Inr (st1, r1)"
    and b: "DHKA_keygen self seed (st, rnd2) = Inr (st2, r2)"
  note e = DHKA_keygen_same_keys[OF a b]
  then show "length st1 = length st2" by (metis erase_simps(1))
  fix x assume x: "x < length st1"
  note f = erase_fields[OF e x]
  show "label (st1 ! x) = label (st2 ! x)" by (rule f)
  show "secret (st1 ! x) = secret (st2 ! x)" by (rule f)
  show "encryption_key (st1 ! x) = encryption_key (st2 ! x)" by (rule f)
  show "key (st1 ! x) = key (st2 ! x)" by (rule f)
  show "length (encrypted_edges (st1 ! x)) = length (encrypted_edges (st2 ! x))" by (rule f)
next
  fix w1 st1 r1 w2 st2 r2
  assume a: "Arcula_keygen wallet wseed (wst, rnd1) = Inr (w1, st1, r1)"
    and b: "Arcula_keygen wallet wseed (wst, rnd2) = Inr (w2, st2, r2)"
  note e = Arcula_keygen_same_material[OF a b]
  show "cold_storage_public_key w1 = cold_storage_public_key w2" by (rule e(2))
  from e(1) show "length st1 = length st2" by (metis erase_all_simps(1))
  fix x assume x: "x < length st1"
  note f = erase_all_fields[OF e(1) x]
  show "label (st1 ! x) = label (st2 ! x)" by (rule f)
  show "secret (st1 ! x) = secret (st2 ! x)" by (rule f)
  show "encryption_key (st1 ! x) = encryption_key (st2 ! x)" by (rule f)
  show "key (st1 ! x) = key (st2 ! x)" by (rule f)
  show "length (encrypted_edges (st1 ! x)) = length (encrypted_edges (st2 ! x))" by (rule f)
  show "signing_key (st1 ! x) = signing_key (st2 ! x)" by (rule f)
  show "map_option snd (certificate (st1 ! x)) = map_option snd (certificate (st2 ! x))" by (rule f)
qed

lemma Arcula_keygen_same_shape:
  assumes r: "Arcula_keygen self seed (st, rnd) = Inr (w, st', rnd')"
  shows "same_shape st st'"
proof -
  define cold where "cold = from_secret_exponent (curve self)
                            (randrange_from_seed__trytryagain (curve self) (drop 32 seed))"
  from r have l: "length seed = 64" by (auto simp: Arcula_keygen_def split: if_splits)
  then have c: "cold_storage_keys self (drop 32 seed) = Inr cold"
    by (simp add: cold_storage_keys_def ecdsa_keygen_def cold_def)
  from r l c obtain st1 rnd1 where
    d: "DHKA_keygen self (take 32 seed) (st, rnd) = Inr (st1, rnd1)"
    and w: "w = self\<lparr>cold_storage_public_key := Some (get_verifying_key cold)\<rparr>"
    and lp: "Arcula_keygen_loop w cold (st1, [root w], {}, rnd1) = Inr (st', rnd')"
    by (auto simp: Arcula_keygen_def Let_def simp del: Arcula_keygen_loop.simps split: sum.splits)
  show ?thesis
    using DHKA_keygen_same_shape[OF d] same_dhka_same_shape[OF Arcula_keygen_loop_same_dhka[OF lp]]
    by (rule same_shape_trans)
qed

lemma hardcoded_run_ones: "\<not> isl (DHKA_keygen (toy_dhka 0) toy_seed (hardcoded, ones))"
  by code_simp

lemma ahardcoded_run_ones: "\<not> isl (Arcula_keygen (toy_wallet 0) seed64 (ahardcoded, ones))"
  by code_simp

theorem keys_reproducible_up_to_randomness_witness:
  "(\<exists>st1 r1 st2 r2.
      DHKA_keygen (toy_dhka 0) toy_seed (hardcoded, zeros) = Inr (st1, r1) \<and>
      DHKA_keygen (toy_dhka 0) toy_seed (hardcoded, ones) = Inr (st2, r2) \<and>
      2 < length st1 \<and> secret (st1 ! 2) = secret (st2 ! 2) \<and> key (st1 ! 2) = key (st2 ! 2)) \<and>
   (\<exists>w1 st1 r1 w2 st2 r2.
      Arcula_keygen (toy_wallet 0) seed64 (ahardcoded, zeros) = Inr (w1, st1, r1) \<and>
      Arcula_keygen (toy_wallet 0) seed64 (ahardcoded, ones) = Inr (w2, st2, r2) \<and>
      2 < length st1 \<and> signing_key (st1 ! 2) = signing_key (st2 ! 2) \<and>
      map_option snd (certificate (st1 ! 2)) = map_option snd (certificate (st2 ! 2)))"
proof -
  note k = keys_reproducible_up_to_randomness[of "toy_dhka 0" toy_seed hardcoded zeros ones
      "toy_wallet 0" seed64 ahardcoded]
  obtain st1 r1 where a: "DHKA_keygen (toy_dhka 0) toy_seed (hardcoded, zeros) = Inr (st1, r1)"
    using toy_run by (metis sum.collapse(2) surj_pair)
  obtain st2 r2 where b: "DHKA_keygen (toy_dhka 0) toy_seed (hardcoded, ones) = Inr (st2, r2)"
    using hardcoded_run_ones by (metis sum.collapse(2) surj_pair)
  have "length st1 = length hardcoded"
    using DHKA_keygen_same_shape[OF a] by (simp add: same_shape_def)
  then have l: "2 < length st1" by (simp add: hardcoded_def)
  from k a b l have c: "secret (st1 ! 2) = secret (st2 ! 2) \<and> key (st1 ! 2) = key (st2 ! 2)"
    by blast
  obtain w1 t1 q1 where d: "Arcula_keygen (toy_wallet 0) seed64 (ahardcoded, zeros) = Inr (w1, t1, q1)"
    using ahardcoded_run by (metis sum.collapse(2) surj_pair)
  obtain w2 t2 q2 where e: "Arcula_keygen (toy_wallet 0) seed64 (ahardcoded, ones) = Inr (w2, t2, q2)"
    using ahardcoded_run_ones by (metis sum.collapse(2) surj_pair)
  have "length t1 = length ahardcoded"
    using Arcula_keygen_same_shape[OF d] by (simp add: same_shape_def)
  then have m: "2 < length t1" by (simp add: ahardcoded_def hardcoded_def)
  from k d e m have f: "signing_key (t1 ! 2) = signing_key (t2 ! 2) \<and>
      map_option snd (certificate (t1 ! 2)) = map_option snd (certificate (t2 ! 2))"
    by blast
  from a b l c d e m f show ?thesis by blast
qed

end
